theory Spec2Isabelle
  imports Main "HOL-Library.Sublist"
begin

section \<open>JavaScript strings and numbers used by the dev command\<close>

text \<open>
  The dev command (\<^verbatim>\<open>class Dev\<close>, method \<^verbatim>\<open>handle\<close>) works on JavaScript
  strings. A string is modelled as a \<^typ>\<open>string\<close>. Every text that the command searches
  for or inserts is ASCII; a character of a document beyond ASCII stands as its UTF-8 bytes,
  among which no ASCII character occurs, so that searching and splicing give the same text.

  \<^verbatim>\<open>s.indexOf(p)\<close> is the position of the first occurrence of \<open>p\<close> in \<open>s\<close>, or
  \<open>-1\<close>; the model returns \<open>None\<close> for \<open>-1\<close>.
\<close>

fun indexOf :: "string \<Rightarrow> string \<Rightarrow> nat option" where
  "indexOf [] p = (if p = [] then Some 0 else None)"
| "indexOf (c # cs) p =
     (if prefix p (c # cs) then Some 0 else map_option Suc (indexOf cs p))"

text \<open>
  \<^verbatim>\<open>s.replace(pattern, replacement)\<close> with a string pattern replaces the first
  occurrence only, and the replacement text is a template: \<^verbatim>\<open>$$\<close> stands for a
  dollar sign, \<^verbatim>\<open>$&\<close> for the matched text, \<^verbatim>\<open>$`\<close> for the text before the
  match and \<^verbatim>\<open>$'\<close> for the text after it (ECMAScript GetSubstitution). A string
  pattern has no capture groups, so \<^verbatim>\<open>$1\<close> and \<^verbatim>\<open>$<name>\<close> stay as they are.
\<close>

fun getSubstitution :: "string \<Rightarrow> string \<Rightarrow> nat \<Rightarrow> string \<Rightarrow> string" where
  "getSubstitution matched str position [] = []"
| "getSubstitution matched str position [c] = [c]"
| "getSubstitution matched str position (c # d # ds) =
     (if c = CHR 0x24 then
        (if d = CHR 0x24 then CHR 0x24 # getSubstitution matched str position ds
         else if d = CHR 0x26 then matched @ getSubstitution matched str position ds
         else if d = CHR 0x60 then take position str @ getSubstitution matched str position ds
         else if d = CHR 0x27 then
           drop (position + length matched) str @ getSubstitution matched str position ds
         else c # getSubstitution matched str position (d # ds))
      else c # getSubstitution matched str position (d # ds))"

definition replace_js :: "string \<Rightarrow> string \<Rightarrow> string \<Rightarrow> string" where
  "replace_js s pattern replacement =
     (case indexOf s pattern of
        None \<Rightarrow> s
      | Some position \<Rightarrow>
          take position s @ getSubstitution pattern s position replacement
            @ drop (position + length pattern) s)"

text \<open>
  Numbers. \<^verbatim>\<open>String(n)\<close> of a non-negative integer is its decimal numeral;
  \<^verbatim>\<open>parseInt\<close> reads the leading decimal digits of a string and gives \<open>NaN\<close>
  when there is none. (Signs, leading white space and the \<^verbatim>\<open>0x\<close> prefix, which
  \<^verbatim>\<open>parseInt\<close> also accepts, do not occur in the strings the command passes.)
\<close>

datatype jsnum = Num nat | NaN

definition digit_char :: "nat \<Rightarrow> char" where
  "digit_char d = char_of (48 + d)"

fun toString :: "nat \<Rightarrow> string" where
  "toString n = (if n < 10 then [digit_char n] else toString (n div 10) @ [digit_char (n mod 10)])"

declare toString.simps [simp del]

definition is_digit :: "char \<Rightarrow> bool" where
  "is_digit c = (48 \<le> (of_char c :: nat) \<and> (of_char c :: nat) \<le> 57)"

definition digit_val :: "char \<Rightarrow> nat" where
  "digit_val c = of_char c - 48"

definition parseInt :: "string \<Rightarrow> jsnum" where
  "parseInt s =
     (case takeWhile is_digit s of
        [] \<Rightarrow> NaN
      | ds \<Rightarrow> Num (foldl (\<lambda>acc c. acc * 10 + digit_val c) 0 ds))"

fun js_add :: "jsnum \<Rightarrow> jsnum \<Rightarrow> jsnum" where
  "js_add (Num a) (Num b) = Num (a + b)"
| "js_add _ _ = NaN"

section \<open>The markup post-processing of the \<^verbatim>\<open>bundled\<close> handler\<close>

text \<open>
  What the handler of the bundler's \<^verbatim>\<open>bundled\<close> event closes over: the command's
  flags \<^verbatim>\<open>this.local\<close> and \<^verbatim>\<open>this.debug\<close>, the variable \<^verbatim>\<open>fill\<close>, the target's
  \<^verbatim>\<open>folder\<close>, \<^verbatim>\<open>visualPath\<close>, and the clock (\<^verbatim>\<open>new Date().getTime()\<close>, in \<open>now\<close>).
\<close>

record bundle_ctx =
  local :: bool
  debug :: bool
  fill :: string
  folder :: string
  visualPath :: string
  now :: nat

datatype level = Log | Warn | Error

type_synonym console = "(level \<times> string) list"

definition visualClientScript :: "bundle_ctx \<Rightarrow> string" where
  \<open>visualClientScript ctx =
     (if local ctx
      then ''<script src="http://localhost:1236/visual-client.min.js?cb='' @ toString (now ctx)
             @ ''"></script>''
      else ''<script src="https://cdn.nebe.app/store/serving/dist/visual-client.min.js?cb=''
             @ toString (now ctx) @ ''"></script>'')\<close>

definition visualHelperUrl :: "bundle_ctx \<Rightarrow> string" where
  \<open>visualHelperUrl ctx =
     (if local ctx then ''http://localhost:1235/'' else ''https://cdn.nebe.app/store/utils/dist/'')\<close>

text \<open>
  The six blocks of the handler have one shape:
  \<^verbatim>\<open>if (markupContents.indexOf('<!--NAME-->') === -1) {
    this.debug ? console.log('Adding NAME to markup') : true;
    markupContents = markupContents.replace(anchor, replacement);
  } else {
    this.debug ? console.log('NAME already in markup') : true;
  }\<close>
  \<open>add_marker\<close> is that block, on the pair of \<^verbatim>\<open>markupContents\<close> and the console.
\<close>

definition open_token :: "string \<Rightarrow> string" where
  "open_token name = ''<!--'' @ name @ ''-->''"

definition add_marker ::
  "bool \<Rightarrow> string \<Rightarrow> string \<Rightarrow> string \<Rightarrow> string \<times> console \<Rightarrow> string \<times> console" where
  "add_marker dbg name anchor replacement st =
     (case st of (markupContents, out) \<Rightarrow>
        if indexOf markupContents (open_token name) = None
        then (replace_js markupContents anchor replacement,
              out @ (if dbg then [(Log, ''Adding '' @ name @ '' to markup'')] else []))
        else (markupContents,
              out @ (if dbg then [(Log, name @ '' already in markup'')] else [])))"

text \<open>
  The replacement texts, as the template literals of the source build them. Each is a line
  break, the block between the open and the close comment, a line break and the anchor tag
  that \<^verbatim>\<open>replace\<close> has taken out.
\<close>

definition polyfills_block :: string where
  \<open>polyfills_block =
     ''<!--NEBE_POLYFILLS--><script src="https://cdnjs.cloudflare.com/ajax/libs/promise-polyfill/8.1.3/polyfill.min.js"></script><script src="https://cdn.jsdelivr.net/npm/regenerator-runtime@0.13.7/runtime.min.js"></script><!--/NEBE_POLYFILLS-->''\<close>

definition polyfills_replacement :: string where
  \<open>polyfills_replacement = ''\<newline>'' @ polyfills_block @ ''\<newline></head>''\<close>

definition demo_fill_block :: "bundle_ctx \<Rightarrow> string" where
  \<open>demo_fill_block ctx =
     ''<!--NEBE_DEMO_FILL-->'' @ ''\<newline>'' @ fill ctx @ ''\<newline>'' @ ''<!--/NEBE_DEMO_FILL-->''\<close>

definition demo_fill_replacement :: "bundle_ctx \<Rightarrow> string" where
  \<open>demo_fill_replacement ctx = ''\<newline>'' @ demo_fill_block ctx @ ''\<newline></body>''\<close>

definition visual_client_block :: "bundle_ctx \<Rightarrow> string" where
  \<open>visual_client_block ctx =
     ''<!--NEBE_VISUAL_CLIENT-->'' @ ''\<newline>'' @ visualClientScript ctx @ ''\<newline>''
       @ ''<!--/NEBE_VISUAL_CLIENT-->''\<close>

definition visual_client_replacement :: "bundle_ctx \<Rightarrow> string" where
  \<open>visual_client_replacement ctx = ''\<newline>'' @ visual_client_block ctx @ ''\<newline></head>''\<close>

definition env_block :: "bundle_ctx \<Rightarrow> string" where
  \<open>env_block ctx =
     ''<!--NEBE_ENV-->'' @ ''\<newline>''
       @ ''<script>window.MODE = 'dev'; window.FOLDER = '' @ [CHR 0x27] @ folder ctx @ [CHR 0x27]
       @ '';</script>'' @ ''\<newline>'' @ ''<!--/NEBE_ENV-->''\<close>

definition env_replacement :: "bundle_ctx \<Rightarrow> string" where
  \<open>env_replacement ctx = ''\<newline>'' @ env_block ctx @ ''\<newline></head>''\<close>

definition document_title_block :: "bundle_ctx \<Rightarrow> string" where
  \<open>document_title_block ctx =
     ''<!--NEBE_DOCUMENT_TITLE-->'' @ ''\<newline>''
       @ ''<script>document.title = "'' @ folder ctx @ '' '' @ visualPath ctx @ ''";</script>''
       @ ''\<newline>'' @ ''<!--/NEBE_DOCUMENT_TITLE-->''\<close>

definition document_title_replacement :: "bundle_ctx \<Rightarrow> string" where
  \<open>document_title_replacement ctx =
     ''\<newline>'' @ document_title_block ctx @ ''\<newline></head>''\<close>

definition visual_helper_block :: "bundle_ctx \<Rightarrow> string" where
  \<open>visual_helper_block ctx =
     ''<!--NEBE_VISUAL_HELPER-->'' @ ''\<newline>''
       @ ''<link rel="stylesheet" href="'' @ visualHelperUrl ctx
       @ ''visual-helper.min.css" type="text/css">'' @ ''\<newline>''
       @ ''<script src="'' @ visualHelperUrl ctx @ ''visual-helper.min.js"></script>''
       @ ''\<newline>'' @ ''<!--/NEBE_VISUAL_HELPER-->''\<close>

definition visual_helper_replacement :: "bundle_ctx \<Rightarrow> string" where
  \<open>visual_helper_replacement ctx =
     ''\<newline>'' @ visual_helper_block ctx @ ''\<newline></head>''\<close>

text \<open>
  The markers in the order of the source: polyfills, demo fill, visual client, environment,
  document title, visual helper. Only the demo fill is anchored at \<^verbatim>\<open></body>\<close>.
\<close>

definition add_polyfills :: "bundle_ctx \<Rightarrow> string \<times> console \<Rightarrow> string \<times> console" where
  "add_polyfills ctx = add_marker (debug ctx) ''NEBE_POLYFILLS'' ''</head>'' polyfills_replacement"

definition add_demo_fill :: "bundle_ctx \<Rightarrow> string \<times> console \<Rightarrow> string \<times> console" where
  "add_demo_fill ctx =
     add_marker (debug ctx) ''NEBE_DEMO_FILL'' ''</body>'' (demo_fill_replacement ctx)"

definition add_visual_client :: "bundle_ctx \<Rightarrow> string \<times> console \<Rightarrow> string \<times> console" where
  "add_visual_client ctx =
     add_marker (debug ctx) ''NEBE_VISUAL_CLIENT'' ''</head>'' (visual_client_replacement ctx)"

definition add_env :: "bundle_ctx \<Rightarrow> string \<times> console \<Rightarrow> string \<times> console" where
  "add_env ctx = add_marker (debug ctx) ''NEBE_ENV'' ''</head>'' (env_replacement ctx)"

definition add_document_title :: "bundle_ctx \<Rightarrow> string \<times> console \<Rightarrow> string \<times> console" where
  "add_document_title ctx =
     add_marker (debug ctx) ''NEBE_DOCUMENT_TITLE'' ''</head>'' (document_title_replacement ctx)"

definition add_visual_helper :: "bundle_ctx \<Rightarrow> string \<times> console \<Rightarrow> string \<times> console" where
  "add_visual_helper ctx =
     add_marker (debug ctx) ''NEBE_VISUAL_HELPER'' ''</head>'' (visual_helper_replacement ctx)"

text \<open>
  The handler from reading \<^verbatim>\<open>index.html\<close> to writing it back: the console lines on the
  client script and the helper URL (with \<^verbatim>\<open>--debug\<close>) and the six blocks in order.
\<close>

definition inject_markers :: "bundle_ctx \<Rightarrow> string \<Rightarrow> string \<times> console" where
  "inject_markers ctx markupContents =
     (let st0 = (markupContents,
                 if debug ctx then [(Log, ''Using VisualClient on URL '' @ visualClientScript ctx)]
                 else []);
          st1 = add_polyfills ctx st0;
          st2 = add_demo_fill ctx st1;
          st3 = add_visual_client ctx st2;
          st4 = add_env ctx st3;
          st5 = add_document_title ctx st4;
          st5' = (fst st5,
                  snd st5 @ (if debug ctx
                             then [(Log, ''Using VisualHelper on URL '' @ visualHelperUrl ctx)]
                             else []))
      in add_visual_helper ctx st5')"

definition markup :: "bundle_ctx \<Rightarrow> string \<Rightarrow> string" where
  "markup ctx markupContents = fst (inject_markers ctx markupContents)"

subsection \<open>Notions for stating the properties of the markup\<close>

text \<open>
  The markers with their anchors, in source order. A text is \<open>settled\<close> for a marker when
  the marker's block of the handler leaves it alone: the open token is there already, or
  the anchor is missing. \<open>count_occ s p\<close> counts the positions of \<open>s\<close> at which \<open>p\<close>
  starts, and \<open>before p q s\<close> says that \<open>p\<close> first occurs in \<open>s\<close> earlier than \<open>q\<close> does.
\<close>

definition markers :: "(string \<times> string) list" where
  "markers =
     [(''NEBE_POLYFILLS'', ''</head>''), (''NEBE_DEMO_FILL'', ''</body>''),
      (''NEBE_VISUAL_CLIENT'', ''</head>''), (''NEBE_ENV'', ''</head>''),
      (''NEBE_DOCUMENT_TITLE'', ''</head>''), (''NEBE_VISUAL_HELPER'', ''</head>'')]"

definition settled :: "string \<Rightarrow> string \<Rightarrow> string \<Rightarrow> bool" where
  "settled name anchor s \<longleftrightarrow> sublist (open_token name) s \<or> \<not> sublist anchor s"

definition marker_free :: "string \<Rightarrow> bool" where
  "marker_free s \<longleftrightarrow> list_all (\<lambda>(name, anchor). \<not> sublist (open_token name) s) markers"

fun count_occ :: "string \<Rightarrow> string \<Rightarrow> nat" where
  "count_occ [] p = (if p = [] then 1 else 0)"
| "count_occ (c # cs) p = (if prefix p (c # cs) then 1 else 0) + count_occ cs p"

definition before :: "string \<Rightarrow> string \<Rightarrow> string \<Rightarrow> bool" where
  "before p q s =
     (case (indexOf s p, indexOf s q) of (Some i, Some j) \<Rightarrow> i < j | _ \<Rightarrow> False)"

text \<open>
  Inputs of the handler that \<^verbatim>\<open>replace\<close> copies as they are (no dollar sign), and, for
  the two properties below, inputs that carry no anchor of another marker
  (\<open>plain_inputs\<close>), or no open token and no \<^verbatim>\<open></head>\<close> (\<open>inert_inputs\<close>).
\<close>

definition literal_inputs :: "bundle_ctx \<Rightarrow> bool" where
  "literal_inputs ctx \<longleftrightarrow>
     CHR 0x24 \<notin> set (fill ctx) \<and> CHR 0x24 \<notin> set (folder ctx) \<and> CHR 0x24 \<notin> set (visualPath ctx)"


definition inert_inputs :: "bundle_ctx \<Rightarrow> bool" where
  "inert_inputs ctx \<longleftrightarrow>
     literal_inputs ctx
     \<and> marker_free (fill ctx) \<and> marker_free (folder ctx) \<and> marker_free (visualPath ctx)
     \<and> \<not> sublist ''</head>'' (folder ctx) \<and> \<not> sublist ''</head>'' (visualPath ctx)"

text \<open>
  A step is \<open>skipped\<close> on a state when it leaves the text as it is and adds nothing to the
  console but \<^verbatim>\<open>console.log\<close> lines.
\<close>

definition skipped :: "(string \<times> console \<Rightarrow> string \<times> console) \<Rightarrow> string \<times> console \<Rightarrow> bool" where
  "skipped step st \<longleftrightarrow>
     fst (step st) = fst st
     \<and> take (length (snd st)) (snd (step st)) = snd st
     \<and> list_all (\<lambda>e. fst e = Log) (drop (length (snd st)) (snd (step st)))"

section \<open>Checking the configuration file\<close>

text \<open>
  \<^verbatim>\<open>checkConfig(configPath)\<close> of \<^verbatim>\<open>lib/utils/checkConfig.js\<close>. What it finds at
  \<^verbatim>\<open>configPath\<close> is its input here: no file, a file that \<^verbatim>\<open>readJsonSync\<close> cannot
  parse (it throws), or a parsed JSON value. Of a number only being zero is consulted.
\<close>

datatype json = JNull | JBool bool | JNum int | JStr string | JArr "json list"
  | JObj "(string \<times> json) list"

datatype config_file = NoFile | Malformed | Parsed json

fun truthy :: "json \<Rightarrow> bool" where
  "truthy JNull = False"
| "truthy (JBool b) = b"
| "truthy (JNum n) = (n \<noteq> 0)"
| "truthy (JStr s) = (s \<noteq> [])"
| "truthy (JArr vs) = True"
| "truthy (JObj kvs) = True"

text \<open>Reading a property: \<open>None\<close> is \<^verbatim>\<open>undefined\<close>; of a repeated key the last one counts.\<close>

fun get_prop :: "json \<Rightarrow> string \<Rightarrow> json option" where
  "get_prop (JObj kvs) k = map_of (rev kvs) k"
| "get_prop _ k = None"

fun is_string :: "json option \<Rightarrow> bool" where
  "is_string (Some (JStr s)) = True"
| "is_string _ = False"

definition formats :: "json list" where
  "formats = map JStr [''fallback'', ''html'', ''print'', ''image'', ''video'', ''audio'', ''source'']"

fun known_format :: "json option \<Rightarrow> bool" where
  "known_format (Some v) = (v \<in> set formats)"
| "known_format None = False"

definition checkConfig :: "config_file \<Rightarrow> string + bool \<times> console" where
  "checkConfig cf =
     (case cf of
        NoFile \<Rightarrow> Inr (False, [(Error, ''config.json does not exist!'')])
      | Malformed \<Rightarrow> Inl ''SyntaxError''
      | Parsed configContents \<Rightarrow>
          if \<not> truthy configContents
          then Inr (False, [(Error, ''config.json is not valid JSON'')])
          else if \<not> is_string (get_prop configContents ''format'')
          then Inr (False, [(Error, ''Visual's format is not defined'')])
          else if \<not> known_format (get_prop configContents ''format'')
          then Inr (False, [(Error, ''Visual's format is not correct'')])
          else if \<not> is_string (get_prop configContents ''name'')
          then Inr (False, [(Error, ''Visual's name is not defined'')])
          else
            let errors = (if \<not> is_string (get_prop configContents ''description'') then 1 else 0 :: nat)
            in Inr (True,
                 (if \<not> is_string (get_prop configContents ''description'')
                  then [(Warn, ''Visual's description is not defined'')] else [])
                 @ (if errors = 0 then [(Log, ''Config seems ok'')] else [])))"

section \<open>The dev command\<close>

text \<open>
  \<^verbatim>\<open>Dev.handle\<close> talks to collaborators whose answers are its inputs here: the port
  probe (\<^verbatim>\<open>tcpPortUsed.check\<close> resolves to a boolean or rejects), the configuration file,
  the size folders that \<^verbatim>\<open>glob.sync\<close> finds, the sizes picked at the prompt, and, for
  the target of each index, whether the body of the \<^verbatim>\<open>try\<close> block (creating the bundler
  and \<^verbatim>\<open>await bundler.serve(port)\<close>) returns or throws; with them the flags
  \<^verbatim>\<open>--local\<close> and \<^verbatim>\<open>--debug\<close>. The other calls between the
  steps (preparing the folder, choosing the visual, \<^verbatim>\<open>git status\<close>, copying files,
  \<^verbatim>\<open>checkSchema\<close>, \<^verbatim>\<open>getFill\<close>) are taken to return.
\<close>

datatype probe = Resolved bool | Rejected string

datatype attempt = Serves | Throws string

record env =
  this_local :: bool
  this_debug :: bool
  portInUse :: "nat \<Rightarrow> probe"
  visual :: string
  configFile :: config_file
  found :: "string list"
  picked :: "string list"
  attempt :: "nat \<Rightarrow> attempt"
  schemaExists :: bool
  firstFill :: string

text \<open>
  An entry of \<^verbatim>\<open>state.bundlers\<close> (a property that is not set is \<open>None\<close>), and a bundler
  of the array \<^verbatim>\<open>bundlers\<close>: its folder and port, the flag \<^verbatim>\<open>isFirstBundle\<close> of its
  handler, and how often \<^verbatim>\<open>bundle()\<close> has been called on it.
\<close>

record bundler_state =
  st_folder :: "string option"
  st_port :: "jsnum option"
  st_error :: "bool option"

record bundler =
  b_folder :: string
  b_port :: jsnum
  isFirstBundle :: bool
  bundle_calls :: nat

text \<open>
  Everything the command has done so far: console lines, desktop notifications, exceptions
  sent to Sentry, whether the status server listens on port 1400, \<^verbatim>\<open>state.folders\<close> and
  \<^verbatim>\<open>state.bundlers\<close>, the array \<^verbatim>\<open>bundlers\<close>, the built \<^verbatim>\<open>index.html\<close> of each
  folder under \<^verbatim>\<open>dist\<close>, the variable \<^verbatim>\<open>fill\<close>, the pending \<^verbatim>\<open>setTimeout\<close> callbacks
  (the time each is due at, in milliseconds), the numbers of calls of \<^verbatim>\<open>checkSchema\<close> and
  of \<^verbatim>\<open>getFill\<close> made by those callbacks, and the watchers set up.
\<close>

record run =
  printed :: console
  notified :: "string list"
  captured :: "string list"
  listening :: bool
  state_folders :: "string list"
  state_bundlers :: "string \<rightharpoonup> bundler_state"
  bundlers :: "bundler list"
  dist :: "string \<rightharpoonup> string"
  cur_fill :: string
  timers :: "nat list"
  schema_checks :: nat
  fill_loads :: nat
  watching_schema :: bool
  watching_config :: bool

definition run0 :: run where
  "run0 = \<lparr>printed = [], notified = [], captured = [], listening = False, state_folders = [],
            state_bundlers = Map.empty, bundlers = [], dist = Map.empty, cur_fill = [],
            timers = [], schema_checks = 0, fill_loads = 0, watching_schema = False,
            watching_config = False\<rparr>"

text \<open>
  How a piece of the command ends: it goes on, the process exits (\<^verbatim>\<open>process.exit()\<close> is
  \<open>Exit None\<close>, \<^verbatim>\<open>process.exit(1)\<close> is \<open>Exit (Some 1)\<close>), or an exception leaves
  \<^verbatim>\<open>handle\<close>.
\<close>

datatype 'a flow = Next 'a | Exit "nat option" 'a | Throw string 'a

fun and_then :: "'a flow \<Rightarrow> ('a \<Rightarrow> 'a flow) \<Rightarrow> 'a flow" where
  "and_then (Next r) f = f r"
| "and_then (Exit code r) f = Exit code r"
| "and_then (Throw err r) f = Throw err r"

fun effects :: "'a flow \<Rightarrow> 'a" where
  "effects (Next r) = r"
| "effects (Exit code r) = r"
| "effects (Throw err r) = r"

fun goes_on :: "'a flow \<Rightarrow> bool" where
  "goes_on (Next r) = True"
| "goes_on _ = False"

definition say :: "level \<Rightarrow> string \<Rightarrow> run \<Rightarrow> run" where
  "say l msg r = r\<lparr>printed := printed r @ [(l, msg)]\<rparr>"

definition notify :: "string \<Rightarrow> run \<Rightarrow> run" where
  "notify msg r = r\<lparr>notified := notified r @ [msg]\<rparr>"

fun show_num :: "jsnum \<Rightarrow> string" where
  "show_num (Num n) = toString n"
| "show_num NaN = ''NaN''"

text \<open>The stop sign that opens the fatal messages, as its UTF-8 bytes.\<close>

definition stop_sign :: string where
  "stop_sign = [CHR 0xF0, CHR 0x9F, CHR 0x9B, CHR 0x91]"

subsection \<open>The port check\<close>

definition basePort :: nat where
  "basePort = 1200"

definition portsToCheck :: "nat list" where
  "portsToCheck = [basePort, 1400]"

definition port_taken_msg :: "nat \<Rightarrow> string" where
  "port_taken_msg p =
     stop_sign @ '' Port '' @ toString p
       @ '' is not available, possibly another bundle is already running''"

definition port_skip_msg :: "nat \<Rightarrow> string" where
  "port_skip_msg p =
     ''An error occurred while detecting availability of port '' @ toString p
       @ '', skipping this check''"

fun check_ports :: "(nat \<Rightarrow> probe) \<Rightarrow> nat list \<Rightarrow> run \<Rightarrow> run flow" where
  "check_ports check [] r = Next r"
| "check_ports check (p # ps) r =
     (case check p of
        Resolved inUse \<Rightarrow>
          if inUse
          then Exit None (notify (port_taken_msg p) (say Error (port_taken_msg p) r))
          else check_ports check ps r
      | Rejected message \<Rightarrow>
          check_ports check ps (say Log message (say Log (port_skip_msg p) r)))"

subsection \<open>Starting the bundlers\<close>

text \<open>
  \<^verbatim>\<open>for (let i in selectedFolders)\<close> runs through the indices of the array in order, with
  \<open>i\<close> the index as a string; \<open>idx\<close> below is the index and \<open>toString idx\<close> that
  string. The port is \<^verbatim>\<open>parseInt(basePort) + parseInt(i)\<close>. (The variable
  \<^verbatim>\<open>folder\<close> of the loop is \<open>dir\<close> here.)
\<close>

definition port_of_key :: "string \<Rightarrow> jsnum" where
  "port_of_key i = js_add (parseInt (toString basePort)) (parseInt i)"

definition start_target :: "env \<Rightarrow> nat \<Rightarrow> string \<Rightarrow> run \<Rightarrow> run" where
  "start_target e idx dir r =
     (let i = toString idx;
          entry = \<lparr>st_folder = Some dir, st_port = None, st_error = None\<rparr>;
          r1 = r\<lparr>state_bundlers := (state_bundlers r)(i \<mapsto> entry)\<rparr>;
          port = port_of_key i
      in case attempt e idx of
           Serves \<Rightarrow>
             (say Log (show_num (js_add (parseInt i) (Num 1)) @ ''/''
                       @ toString (length (picked e)) @ '' Serving '' @ dir
                       @ '' on http://localhost:'' @ show_num port) r1)
               \<lparr>bundlers := bundlers r1
                    @ [\<lparr>b_folder = dir, b_port = port, isFirstBundle = True, bundle_calls = 0\<rparr>],
                state_bundlers :=
                  (state_bundlers r1)(i \<mapsto> entry\<lparr>st_error := Some False, st_port := Some port\<rparr>)\<rparr>
         | Throws error \<Rightarrow>
             (say Error error
               (say Error (show_num (js_add (parseInt i) (Num 1)) @ ''/''
                           @ toString (length (found e)) @ '' Error '' @ dir) r1))
               \<lparr>captured := captured r1 @ [error],
                state_bundlers := (state_bundlers r1)(i \<mapsto> entry\<lparr>st_error := Some False\<rparr>)\<rparr>)"

fun start_all :: "env \<Rightarrow> nat \<Rightarrow> string list \<Rightarrow> run \<Rightarrow> run" where
  "start_all e idx [] r = r"
| "start_all e idx (dir # rest) r = start_all e (Suc idx) rest (start_target e idx dir r)"

subsection \<open>The command\<close>

fun join_comma :: "string list \<Rightarrow> string" where
  "join_comma [] = []"
| "join_comma [x] = x"
| "join_comma (x # y # ys) = x @ '','' @ join_comma (y # ys)"

definition no_sizes_msg :: string where
  "no_sizes_msg =
     stop_sign @ '' Template does not contain any size folders, eg. 300x300. Create it or use example templates at https://github.com/nebe-app''"

definition none_picked_msg :: string where
  "none_picked_msg = stop_sign @ '' No sizes where picked to bundle''"

definition start_bundlers :: "env \<Rightarrow> run \<Rightarrow> run flow" where
  "start_bundlers e r =
     (if length (found e) = 0
      then Exit None (notify no_sizes_msg (say Error no_sizes_msg r))
      else
        let r1 = (say Log (''Bundling '' @ toString (length (found e)) @ '' sizes'') r)
                   \<lparr>state_folders := found e\<rparr>
        in if length (picked e) = 0
           then Exit None (notify none_picked_msg (say Error none_picked_msg r1))
           else
             let r2 = (say Log (''Running bundlers for sizes: '' @ join_comma (picked e)) r1)
                        \<lparr>state_bundlers := Map.empty\<rparr>;
                 r3 = start_all e 0 (picked e) r2
             in Next ((say Log ''Listening to file changes... Press Ctrl+C to stop servers'' r3)
                        \<lparr>watching_schema := schemaExists e, watching_config := True\<rparr>))"

definition check_config_file :: "env \<Rightarrow> run \<Rightarrow> run flow" where
  "check_config_file e r =
     (case checkConfig (configFile e) of
        Inl err \<Rightarrow> Throw err r
      | Inr (configResult, out) \<Rightarrow>
          if \<not> configResult then Exit (Some 1) (r\<lparr>printed := printed r @ out\<rparr>)
          else Next (r\<lparr>printed := printed r @ out, cur_fill := firstFill e\<rparr>))"

definition handle :: "env \<Rightarrow> run flow" where
  "handle e =
     and_then (check_ports (portInUse e) portsToCheck run0) (\<lambda>r.
     and_then (check_config_file e ((say Log (''Building '' @ visual e) r)\<lparr>listening := True\<rparr>))
       (start_bundlers e))"

subsection \<open>The handler of \<^verbatim>\<open>bundled\<close>\<close>

text \<open>
  When the bundler number \<open>k\<close> of the array reports \<^verbatim>\<open>bundled\<close> at time \<open>t\<close>: the
  handler reads the built \<^verbatim>\<open>index.html\<close> (\<^verbatim>\<open>readFileSync\<close> throws when there is none),
  injects the markers, writes the text back, complains when there is no \<^verbatim>\<open><main>\<close>, and
  prints a line from the second time on.
\<close>

definition on_bundled :: "env \<Rightarrow> nat \<Rightarrow> nat \<Rightarrow> run \<Rightarrow> run flow" where
  "on_bundled e t k r =
     (if \<not> k < length (bundlers r) then Next r
      else
        let b = bundlers r ! k;
            ctx = \<lparr>local = this_local e, debug = this_debug e, fill = cur_fill r,
                   folder = b_folder b, visualPath = visual e, now = t\<rparr>
        in case dist r (b_folder b) of
             None \<Rightarrow>
               Throw ''ENOENT''
                 (if this_debug e
                  then say Log (''Using VisualClient on URL '' @ visualClientScript ctx) r
                  else r)
           | Some markupContents \<Rightarrow>
               let st = inject_markers ctx markupContents;
                   r1 = r\<lparr>printed := printed r @ snd st,
                          dist := (dist r)(b_folder b \<mapsto> fst st)\<rparr>;
                   r2 = (if indexOf (fst st) ''<main>'' = None \<and> indexOf (fst st) ''<main '' = None
                         then say Error (''Resize '' @ b_folder b
                                         @ '' does not contain element <main>!'') r1
                         else r1)
               in Next (if isFirstBundle b
                        then r2\<lparr>bundlers := (bundlers r2)[k := b\<lparr>isFirstBundle := False\<rparr>]\<rparr>
                        else say Log (''Bundled '' @ b_folder b @ '' on http://localhost:''
                                      @ show_num (b_port b)) r2))"

section \<open>The watchers\<close>

text \<open>
  The callback of \<^verbatim>\<open>fs.watch(schemaPath)\<close> prints a line and calls
  \<^verbatim>\<open>setTimeout(..., 200)\<close>; it keeps no handle of the timer and cancels none. The
  timer's callback checks the schema, loads the fill (\<open>newFill\<close> is what \<^verbatim>\<open>getFill\<close>
  returns then) and calls \<^verbatim>\<open>bundle()\<close> on every bundler of the array; the calls of
  \<^verbatim>\<open>checkSchema\<close> and \<^verbatim>\<open>getFill\<close> in it are taken to return, as above.

  The callback of \<^verbatim>\<open>fs.watch(configPath)\<close> prints a line and awaits
  \<^verbatim>\<open>checkConfig\<close>, whose result it drops. When \<^verbatim>\<open>checkConfig\<close> throws (the file
  cannot be parsed), the callback, an \<^verbatim>\<open>async\<close> function, rejects, and no code of
  the command handles the rejection: the exception leaves the command, as it does at the
  first check of the configuration in \<^verbatim>\<open>handle\<close>. What the process does with the
  unhandled rejection is not part of the command; the run is followed up to that point.
\<close>

definition schema_changed :: "nat \<Rightarrow> run \<Rightarrow> run" where
  "schema_changed t r =
     (say Log ''Schema changed, checking and rebundling...'' r)\<lparr>timers := timers r @ [t + 200]\<rparr>"

definition timer_fired :: "string \<Rightarrow> run \<Rightarrow> run" where
  "timer_fired newFill r =
     r\<lparr>schema_checks := Suc (schema_checks r),
       cur_fill := newFill,
       fill_loads := Suc (fill_loads r),
       bundlers := map (\<lambda>b. b\<lparr>bundle_calls := Suc (bundle_calls b)\<rparr>) (bundlers r)\<rparr>"

definition config_changed :: "config_file \<Rightarrow> run \<Rightarrow> run flow" where
  "config_changed cf r =
     (let r1 = say Log ''Config changed, validating'' r
      in case checkConfig cf of
           Inl err \<Rightarrow> Throw err r1
         | Inr (configResult, out) \<Rightarrow> Next (r1\<lparr>printed := printed r1 @ out\<rparr>))"

text \<open>
  The event loop, with time in milliseconds: \<open>run_due getFill t\<close> runs the callbacks of
  the timers due by \<open>t\<close>, in the order they were set; \<open>deliver\<close> hands a file event to
  its watcher, if that watcher has been set up; and \<open>simulate\<close> delivers file events in
  the order of their times, running the due timers before each, until a callback throws.
\<close>

datatype event = SchemaChange | ConfigChange config_file

definition run_due :: "(nat \<Rightarrow> string) \<Rightarrow> nat \<Rightarrow> run \<Rightarrow> run" where
  "run_due getFill t r =
     fold (\<lambda>due. timer_fired (getFill due)) (filter (\<lambda>due. due \<le> t) (timers r))
       (r\<lparr>timers := filter (\<lambda>due. \<not> due \<le> t) (timers r)\<rparr>)"

fun deliver :: "event \<Rightarrow> nat \<Rightarrow> run \<Rightarrow> run flow" where
  "deliver SchemaChange t r = Next (if watching_schema r then schema_changed t r else r)"
| "deliver (ConfigChange cf) t r = (if watching_config r then config_changed cf r else Next r)"

fun simulate :: "(nat \<Rightarrow> string) \<Rightarrow> (nat \<times> event) list \<Rightarrow> run \<Rightarrow> run flow" where
  "simulate getFill [] r = Next r"
| "simulate getFill ((t, ev) # evs) r =
     and_then (deliver ev t (run_due getFill t r)) (\<lambda>r'. simulate getFill evs r')"

text \<open>
  \<open>cycles n r r'\<close>: from \<open>r\<close> to \<open>r'\<close> the schema has been checked \<open>n\<close> times, the
  fill loaded \<open>n\<close> times and \<^verbatim>\<open>bundle()\<close> called \<open>n\<close> times on every bundler.
\<close>

definition cycles :: "nat \<Rightarrow> run \<Rightarrow> run \<Rightarrow> bool" where
  "cycles n r r' \<longleftrightarrow>
     schema_checks r' = schema_checks r + n
     \<and> fill_loads r' = fill_loads r + n
     \<and> map bundle_calls (bundlers r') = map (\<lambda>c. c + n) (map bundle_calls (bundlers r))"

section \<open>An example run\<close>

text \<open>
  Two size folders, both picked; the ports are free and the configuration is valid. The
  first bundler fails to start, the second one serves.
\<close>

definition two_sizes :: env where
  "two_sizes =
     \<lparr>this_local = False, this_debug = False,
      portInUse = (\<lambda>p. Resolved False),
      visual = ''brand/visual'',
      configFile = Parsed (JObj [(''format'', JStr ''html''), (''name'', JStr ''Banner''),
                                 (''description'', JStr ''Two sizes'')]),
      found = [''/root/src/brand/visual/300x300/index.html'',
               ''/root/src/brand/visual/728x90/index.html''],
      picked = [''300x300'', ''728x90''],
      attempt = (\<lambda>i. if i = 0 then Throws ''EADDRINUSE'' else Serves),
      schemaExists = True,
      firstFill = ''{}''\<rparr>"

section \<open>Facts about searching and replacing\<close>

lemma indexOf_None_iff: "indexOf s p = None \<longleftrightarrow> \<not> sublist p s"
  by (induction s) (auto simp: sublist_Cons_right)

lemma getSubstitution_plain:
  "CHR 0x24 \<notin> set r \<Longrightarrow> getSubstitution m s n r = r"
  by (induction m s n r rule: getSubstitution.induct) auto

lemma replace_js_absent: "\<not> sublist p s \<Longrightarrow> replace_js s p r = s"
  using indexOf_None_iff[of s p] by (simp add: replace_js_def)

lemma prefix_long_sublist:
  assumes "prefix p (x # a @ p @ b)"
  shows "sublist p (x # a @ butlast p)"
proof (cases "p = []")
  case True
  then show ?thesis by simp
next
  case False
  then have split: "x # a @ p @ b = (x # a @ butlast p) @ (last p # b)"
    by simp
  have "length p \<le> length (x # a @ butlast p)" by simp
  with assms split have "prefix p (x # a @ butlast p)"
    by (metis prefix_length_prefix prefixI)
  then show ?thesis by (rule prefix_imp_sublist)
qed

lemma indexOf_first:
  "\<not> sublist p (a @ butlast p) \<Longrightarrow> p \<noteq> [] \<Longrightarrow> indexOf (a @ p @ b) p = Some (length a)"
proof (induction a)
  case Nil
  then show ?case by (cases p) auto
next
  case (Cons x a)
  from Cons.prems(1) have np: "\<not> prefix p (x # a @ p @ b)"
    using prefix_long_sublist by fastforce
  from Cons.prems(1) have "\<not> sublist p (a @ butlast p)"
    by (simp add: sublist_Cons_right)
  with Cons.IH Cons.prems(2) have "indexOf (a @ p @ b) p = Some (length a)" by simp
  with np show ?case by simp
qed

lemma indexOf_Some_first:
  "indexOf s p = Some n \<Longrightarrow> p \<noteq> [] \<Longrightarrow>
     \<exists>a b. s = a @ p @ b \<and> length a = n \<and> \<not> sublist p (a @ butlast p)"
proof (induction s arbitrary: n)
  case Nil
  then show ?case by simp
next
  case (Cons c cs)
  show ?case
  proof (cases "prefix p (c # cs)")
    case True
    then obtain b where b: "c # cs = p @ b" by (auto simp: prefix_def)
    from True Cons.prems have "n = 0" by simp
    moreover have "\<not> sublist p (butlast p)"
    proof
      assume "sublist p (butlast p)"
      then have "length p \<le> length (butlast p)" by (rule sublist_length_le)
      with Cons.prems(2) show False by (simp add: length_greater_0_conv[symmetric] del: length_greater_0_conv)
    qed
    ultimately show ?thesis using b by (intro exI[of _ "[]"] exI[of _ b]) simp
  next
    case False
    with Cons.prems obtain n' where n': "indexOf cs p = Some n'" "n = Suc n'"
      by auto
    from Cons.IH[OF n'(1) Cons.prems(2)] obtain a b where
      ab: "cs = a @ p @ b" "length a = n'" "\<not> sublist p (a @ butlast p)" by blast
    have "\<not> prefix p (c # a @ butlast p)"
    proof
      assume "prefix p (c # a @ butlast p)"
      moreover have "prefix (c # a @ butlast p) (c # a @ p @ b)"
        by (simp add: prefixeq_butlast)
      ultimately have "prefix p (c # a @ p @ b)" by (rule prefix_order.trans)
      with False ab(1) show False by simp
    qed
    with ab(3) have "\<not> sublist p ((c # a) @ butlast p)"
      by (simp add: sublist_Cons_right)
    with ab n'(2) show ?thesis
      by (intro exI[of _ "c # a"] exI[of _ b]) simp
  qed
qed

lemma replace_js_first:
  "\<not> sublist p (a @ butlast p) \<Longrightarrow> p \<noteq> [] \<Longrightarrow> CHR 0x24 \<notin> set r \<Longrightarrow>
     replace_js (a @ p @ b) p r = a @ r @ b"
  by (simp add: replace_js_def indexOf_first getSubstitution_plain)

lemma prefix_sep: "c \<notin> set q \<Longrightarrow> prefix q (a @ c # b) \<longleftrightarrow> prefix q a"
  by (auto simp: prefix_append prefix_Cons)

lemma sublist_sep:
  assumes "c \<notin> set q"
  shows "sublist q (a @ c # b) \<longleftrightarrow> sublist q a \<or> sublist q b"
proof
  assume "sublist q (a @ c # b)"
  then consider "sublist q a" | "sublist q (c # b)"
    | q1 q2 where "q = q1 @ q2" "suffix q1 a" "prefix q2 (c # b)"
    by (auto simp: sublist_append)
  then show "sublist q a \<or> sublist q b"
  proof cases
    case 1
    then show ?thesis by simp
  next
    case 2
    with assms show ?thesis by (auto simp: sublist_Cons_right prefix_Cons)
  next
    case 3
    with assms have "q2 = []" by (auto simp: prefix_Cons)
    with 3 show ?thesis by auto
  qed
next
  assume "sublist q a \<or> sublist q b"
  then show "sublist q (a @ c # b)"
  proof
    assume "sublist q a"
    then obtain ps ss where "a = ps @ q @ ss" by (auto simp: sublist_def)
    then have "a @ c # b = ps @ q @ (ss @ c # b)" by simp
    then show ?thesis unfolding sublist_def by blast
  next
    assume "sublist q b"
    then obtain ps ss where "b = ps @ q @ ss" by (auto simp: sublist_def)
    then have "a @ c # b = (a @ c # ps) @ q @ ss" by simp
    then show ?thesis unfolding sublist_def by blast
  qed
qed

lemma sublist_survives:
  assumes "sublist q (a @ p @ b)" and "p \<noteq> []" and "hd p \<notin> set (tl q)"
  shows "sublist q (a @ r @ p @ b)"
proof -
  from assms(1) have "sublist q a \<or> sublist q (p @ b)
      \<or> (\<exists>q1 q2. q = q1 @ q2 \<and> suffix q1 a \<and> prefix q2 (p @ b))"
    by (simp only: sublist_append)
  moreover have "sublist q (p @ b)" if "q = q1 @ q2" "prefix q2 (p @ b)" "q1 = []" for q1 q2
    using that by simp
  moreover have "sublist q a" if "q = q1 @ q2" "suffix q1 a" "q2 = []" for q1 q2
    using that by simp
  ultimately consider "sublist q a" | "sublist q (p @ b)"
    | q1 q2 where "q = q1 @ q2" "suffix q1 a" "prefix q2 (p @ b)" "q1 \<noteq> []" "q2 \<noteq> []"
    by blast
  then show ?thesis
  proof cases
    case 1
    then show ?thesis by (metis sublist_append)
  next
    case 2
    then show ?thesis by (metis sublist_append)
  next
    case 3
    from 3(3,5) assms(2) have "hd q2 = hd p"
      by (cases q2; cases p) (auto simp: prefix_Cons)
    moreover from 3(5) have "hd q2 \<in> set q2" by simp
    ultimately have "hd p \<in> set (tl q)" using 3(1,4) by (cases q1) auto
    with assms(3) show ?thesis by simp
  qed
qed

section \<open>One marker block\<close>

lemma add_marker_text:
  "fst (add_marker dbg name anchor rep st) =
     (if sublist (open_token name) (fst st) then fst st
      else replace_js (fst st) anchor rep)"
  using indexOf_None_iff[of "fst st" "open_token name"]
  by (cases st) (auto simp: add_marker_def)

lemma add_marker_fixed:
  "settled name anchor (fst st) \<Longrightarrow> fst (add_marker dbg name anchor rep st) = fst st"
  by (auto simp: add_marker_text settled_def replace_js_absent)

lemma sublist_first_split:
  fixes s :: string
  assumes "sublist p s" and "p \<noteq> []"
  obtains a b where "s = a @ p @ b" and "\<not> sublist p (a @ butlast p)"
proof -
  from assms(1) obtain n where "indexOf s p = Some n"
    using indexOf_None_iff[of s p] by auto
  from indexOf_Some_first[OF this assms(2)] that show thesis by blast
qed

lemma add_marker_cases:
  assumes "anchor \<noteq> []" and "CHR 0x24 \<notin> set rep"
  obtains (same) "settled name anchor (fst st)"
      and "fst (add_marker dbg name anchor rep st) = fst st"
  | (spliced) a b where "fst st = a @ anchor @ b" and "\<not> sublist anchor (a @ butlast anchor)"
      and "\<not> sublist (open_token name) (fst st)"
      and "fst (add_marker dbg name anchor rep st) = a @ rep @ b"
proof (cases "settled name anchor (fst st)")
  case True
  then show thesis using same by (simp add: add_marker_fixed)
next
  case False
  then have absent: "\<not> sublist (open_token name) (fst st)" and "sublist anchor (fst st)"
    by (auto simp: settled_def)
  from this(2) assms(1) obtain a b where
    ab: "fst st = a @ anchor @ b" "\<not> sublist anchor (a @ butlast anchor)"
    by (rule sublist_first_split)
  have "fst (add_marker dbg name anchor rep st) = a @ rep @ b"
    using absent ab assms by (simp add: add_marker_text replace_js_first)
  with ab absent show thesis by (rule spliced)
qed


lemma add_marker_preserves:
  assumes st: "settled name' q (fst st)"
    and rep: "rep = c # inner @ c # anchor"
    and "anchor \<noteq> []" and "CHR 0x24 \<notin> set rep"
    and tok: "hd anchor \<notin> set (tl (open_token name'))"
    and sep: "c \<notin> set q"
    and inner: "q = anchor \<or> \<not> sublist q inner"
  shows "settled name' q (fst (add_marker dbg name anchor rep st))"
proof (rule add_marker_cases[OF assms(3,4), where dbg=dbg and name=name and st=st], goal_cases same spliced)
  case same
  with st show ?thesis by simp
next
  case (spliced a b)
  from spliced(4) rep
  have res: "fst (add_marker dbg name anchor rep st) = a @ c # inner @ c # anchor @ b"
    by simp
  from st consider "sublist (open_token name') (fst st)" | "\<not> sublist q (fst st)"
    by (auto simp: settled_def)
  then show ?thesis
  proof cases
    case 1
    with spliced(1) have "sublist (open_token name') (a @ anchor @ b)" by simp
    from sublist_survives[OF this assms(3) tok, of "c # inner @ [c]"]
    show ?thesis by (simp add: settled_def res)
  next
    case 2
    with spliced(1) have no: "\<not> sublist q (a @ anchor @ b)" by simp
    then have "q \<noteq> anchor" by auto
    with inner have "\<not> sublist q inner" by simp
    moreover from no have "\<not> sublist q a" "\<not> sublist q (anchor @ b)"
      by (auto simp: sublist_append)
    ultimately have "\<not> sublist q (a @ c # inner @ c # anchor @ b)"
      using sep sublist_sep[OF sep, of a "inner @ c # anchor @ b"]
        sublist_sep[OF sep, of inner "anchor @ b"] by simp
    then show ?thesis by (simp add: settled_def res)
  qed
qed

lemma toString_digits: "c \<in> set (toString n) \<Longrightarrow> is_digit c"
proof (induction n rule: toString.induct)
  case (1 n)
  have d: "is_digit (digit_char k)" if "k < 10" for k
    using that by (simp add: is_digit_def digit_char_def)
  show ?case
  proof (cases "n < 10")
    case True
    with "1.prems" d show ?thesis by (subst (asm) toString.simps) auto
  next
    case False
    with "1.prems" have "c \<in> set (toString (n div 10)) \<or> c = digit_char (n mod 10)"
      by (subst (asm) toString.simps) auto
    with "1.IH" False d[of "n mod 10"] show ?thesis by auto
  qed
qed

lemma toString_no_char: "\<not> is_digit c \<Longrightarrow> c \<notin> set (toString n)"
  using toString_digits by blast

lemma toString_no_sublist: "c \<in> set q \<Longrightarrow> \<not> is_digit c \<Longrightarrow> \<not> sublist q (toString n)"
  using toString_digits set_mono_sublist by fastforce

lemma not_digit [simp]: "\<not> is_digit (CHR 0x24)" "\<not> is_digit (CHR ''<'')"
  by (simp_all add: is_digit_def)

lemma dollar_polyfills: "CHR 0x24 \<notin> set polyfills_replacement"
  by (simp add: polyfills_replacement_def polyfills_block_def)






lemma body_polyfills: "\<not> sublist ''</body>'' polyfills_block"
  by (simp add: polyfills_block_def sublist_Cons_right)






lemma markers_cases:
  assumes "(name, q) \<in> set markers"
  shows "(q = ''</head>'' \<or> q = ''</body>'') \<and> CHR ''<'' \<notin> set (tl (open_token name))"
  using assms by (auto simp: markers_def open_token_def)

lemma head_step_preserves:
  assumes m: "(name', q) \<in> set markers" and st: "settled name' q (fst st)"
    and d: "CHR 0x24 \<notin> set block" and b: "\<not> sublist ''</body>'' block"
  shows "settled name' q (fst (add_marker dbg name ''</head>'' (''\<newline>'' @ block @ ''\<newline></head>'') st))"
proof (rule add_marker_preserves[OF st, where c = "CHR ''\<newline>''" and inner = block])
  show "''\<newline>'' @ block @ ''\<newline></head>'' = CHR ''\<newline>'' # block @ CHR ''\<newline>'' # ''</head>''"
    by simp
  show "CHR 0x24 \<notin> set (''\<newline>'' @ block @ ''\<newline></head>'')" using d by simp
  show "hd ''</head>'' \<notin> set (tl (open_token name'))" using markers_cases[OF m] by simp
  show "CHR ''\<newline>'' \<notin> set q" using markers_cases[OF m] by auto
  show "q = ''</head>'' \<or> \<not> sublist q block" using markers_cases[OF m] b by auto
qed simp



text \<open>The text component of each step.\<close>

lemma polyfills_preserves:
  "(n, q) \<in> set markers \<Longrightarrow> settled n q (fst st) \<Longrightarrow> settled n q (fst (add_polyfills ctx st))"
  unfolding add_polyfills_def polyfills_replacement_def
  using dollar_polyfills body_polyfills
  by (intro head_step_preserves) (simp_all add: polyfills_replacement_def)












lemma add_marker_keeps:
  assumes q: "sublist q (fst st)" and "anchor \<noteq> []"
    and d: "CHR 0x24 \<notin> set block" "CHR 0x24 \<notin> set anchor"
    and tok: "hd anchor \<notin> set (tl q)"
  shows "sublist q (fst (add_marker dbg name anchor (''\<newline>'' @ block @ ''\<newline>'' @ anchor) st))"
proof (rule add_marker_cases[where dbg=dbg and name=name and st=st and anchor=anchor
      and rep="''\<newline>'' @ block @ ''\<newline>'' @ anchor"], goal_cases)
  case 1
  show ?case by fact
next
  case 2
  show ?case using d by simp
next
  case 3
  with q show ?case by simp
next
  case (4 a b)
  from q 4(1) have "sublist q (a @ anchor @ b)" by simp
  from sublist_survives[OF this assms(2) tok, of "''\<newline>'' @ block @ ''\<newline>''"] 4(4)
  show ?case by simp
qed


section \<open>The six blocks in a row\<close>

lemma markers_mem:
  "(''NEBE_POLYFILLS'', ''</head>'') \<in> set markers"
  "(''NEBE_DEMO_FILL'', ''</body>'') \<in> set markers"
  "(''NEBE_VISUAL_CLIENT'', ''</head>'') \<in> set markers"
  "(''NEBE_ENV'', ''</head>'') \<in> set markers"
  "(''NEBE_DOCUMENT_TITLE'', ''</head>'') \<in> set markers"
  "(''NEBE_VISUAL_HELPER'', ''</head>'') \<in> set markers"
  by (simp_all add: markers_def)






lemma step_forms:
  "add_polyfills ctx =
     add_marker (debug ctx) ''NEBE_POLYFILLS'' ''</head>''
       (''\<newline>'' @ polyfills_block @ ''\<newline>'' @ ''</head>'')"
  "add_demo_fill ctx =
     add_marker (debug ctx) ''NEBE_DEMO_FILL'' ''</body>''
       (''\<newline>'' @ demo_fill_block ctx @ ''\<newline>'' @ ''</body>'')"
  "add_visual_client ctx =
     add_marker (debug ctx) ''NEBE_VISUAL_CLIENT'' ''</head>''
       (''\<newline>'' @ visual_client_block ctx @ ''\<newline>'' @ ''</head>'')"
  "add_env ctx =
     add_marker (debug ctx) ''NEBE_ENV'' ''</head>''
       (''\<newline>'' @ env_block ctx @ ''\<newline>'' @ ''</head>'')"
  "add_document_title ctx =
     add_marker (debug ctx) ''NEBE_DOCUMENT_TITLE'' ''</head>''
       (''\<newline>'' @ document_title_block ctx @ ''\<newline>'' @ ''</head>'')"
  "add_visual_helper ctx =
     add_marker (debug ctx) ''NEBE_VISUAL_HELPER'' ''</head>''
       (''\<newline>'' @ visual_helper_block ctx @ ''\<newline>'' @ ''</head>'')"
  by (simp_all add: add_polyfills_def add_demo_fill_def add_visual_client_def add_env_def
      add_document_title_def add_visual_helper_def polyfills_replacement_def
      demo_fill_replacement_def visual_client_replacement_def env_replacement_def
      document_title_replacement_def visual_helper_replacement_def)

lemma block_dollar:
  "CHR 0x24 \<notin> set polyfills_block"
  "literal_inputs ctx \<Longrightarrow> CHR 0x24 \<notin> set (demo_fill_block ctx)"
  "CHR 0x24 \<notin> set (visual_client_block ctx)"
  "literal_inputs ctx \<Longrightarrow> CHR 0x24 \<notin> set (env_block ctx)"
  "literal_inputs ctx \<Longrightarrow> CHR 0x24 \<notin> set (document_title_block ctx)"
  "CHR 0x24 \<notin> set (visual_helper_block ctx)"
  by (simp_all add: polyfills_block_def demo_fill_block_def visual_client_block_def
      env_block_def document_title_block_def visual_helper_block_def visualClientScript_def
      visualHelperUrl_def toString_no_char literal_inputs_def)

lemma markup_induct:
  assumes "P d"
    and "\<And>st. P (fst st) \<Longrightarrow> P (fst (add_polyfills ctx st))"
    and "\<And>st. P (fst st) \<Longrightarrow> P (fst (add_demo_fill ctx st))"
    and "\<And>st. P (fst st) \<Longrightarrow> P (fst (add_visual_client ctx st))"
    and "\<And>st. P (fst st) \<Longrightarrow> P (fst (add_env ctx st))"
    and "\<And>st. P (fst st) \<Longrightarrow> P (fst (add_document_title ctx st))"
    and "\<And>st. P (fst st) \<Longrightarrow> P (fst (add_visual_helper ctx st))"
  shows "P (markup ctx d)"
  unfolding markup_def inject_markers_def Let_def
  by (intro assms(2-7) | simp only: fst_conv assms(1))+

lemma markup_keeps:
  assumes l: "literal_inputs ctx" and q: "sublist q d" and t: "CHR ''<'' \<notin> set (tl q)"
  shows "sublist q (markup ctx d)"
proof (rule markup_induct[where P = "sublist q"], goal_cases)
  case 1
  show ?case by fact
qed (simp_all only: step_forms, (rule add_marker_keeps; use t block_dollar l in simp)+)

section \<open>Counting the open tokens of the blocks\<close>

lemma count_occ_zero_iff: "count_occ s p = 0 \<longleftrightarrow> \<not> sublist p s"
  by (induction s) (auto simp: sublist_Cons_right)

lemma count_occ_sep: "c \<notin> set p \<Longrightarrow> count_occ (a @ c # b) p = count_occ a p + count_occ b p"
proof (induction a)
  case Nil
  then show ?case by (cases p) auto
next
  case (Cons x a)
  from Cons.prems have "prefix p (x # a @ c # b) \<longleftrightarrow> prefix p (x # a)"
    using prefix_sep[of c p "x # a" b] by simp
  with Cons show ?case by simp
qed

lemma markers_elim:
  assumes "(n, q) \<in> set markers"
  obtains "n = ''NEBE_POLYFILLS''" "q = ''</head>''"
  | "n = ''NEBE_DEMO_FILL''" "q = ''</body>''"
  | "n = ''NEBE_VISUAL_CLIENT''" "q = ''</head>''"
  | "n = ''NEBE_ENV''" "q = ''</head>''"
  | "n = ''NEBE_DOCUMENT_TITLE''" "q = ''</head>''"
  | "n = ''NEBE_VISUAL_HELPER''" "q = ''</head>''"
proof -
  from assms have "(n, q) = (''NEBE_POLYFILLS'', ''</head>'') \<or> (n, q) = (''NEBE_DEMO_FILL'', ''</body>'')
     \<or> (n, q) = (''NEBE_VISUAL_CLIENT'', ''</head>'') \<or> (n, q) = (''NEBE_ENV'', ''</head>'')
     \<or> (n, q) = (''NEBE_DOCUMENT_TITLE'', ''</head>'') \<or> (n, q) = (''NEBE_VISUAL_HELPER'', ''</head>'')"
    unfolding markers_def by (simp only: set_simps insert_iff empty_iff simp_thms)
  with that show thesis by (elim disjE) (simp_all only: prod.inject)
qed

lemma marker_free_count:
  assumes "marker_free s" and "(n, q) \<in> set markers"
  shows "count_occ s (open_token n) = 0"
proof -
  from assms have "\<not> sublist (open_token n) s"
    unfolding marker_free_def list_all_iff by blast
  then show ?thesis by (simp add: count_occ_zero_iff)
qed

lemma polyfills_block_count:
  assumes "(n, q) \<in> set markers"
  shows "count_occ polyfills_block (open_token n) = (if n = ''NEBE_POLYFILLS'' then 1 else 0)"
  using assms
  by (cases rule: markers_elim) (simp_all add: polyfills_block_def open_token_def)


lemma demo_fill_block_count:
  assumes "marker_free (fill ctx)" and "(n, q) \<in> set markers"
  shows "count_occ (demo_fill_block ctx) (open_token n) = (if n = ''NEBE_DEMO_FILL'' then 1 else 0)"
  using assms(2) marker_free_count[OF assms]
  by (cases rule: markers_elim)
    (simp_all add: demo_fill_block_def open_token_def count_occ_sep)

lemma visual_client_block_count:
  assumes "(n, q) \<in> set markers"
  shows "count_occ (visual_client_block ctx) (open_token n)
    = (if n = ''NEBE_VISUAL_CLIENT'' then 1 else 0)"
proof -
  have "count_occ (toString k) (open_token n) = 0" for k
    by (simp add: count_occ_zero_iff open_token_def toString_no_sublist[of "CHR ''<''"])
  with assms show ?thesis
    by (cases rule: markers_elim)
      (simp_all add: visual_client_block_def visualClientScript_def open_token_def count_occ_sep)
qed

lemma env_block_count:
  assumes "marker_free (folder ctx)" and "(n, q) \<in> set markers"
  shows "count_occ (env_block ctx) (open_token n) = (if n = ''NEBE_ENV'' then 1 else 0)"
  using assms(2) marker_free_count[OF assms]
  by (cases rule: markers_elim)
    (simp_all add: env_block_def open_token_def count_occ_sep)

lemma document_title_block_count:
  assumes "marker_free (folder ctx)" and "marker_free (visualPath ctx)"
    and "(n, q) \<in> set markers"
  shows "count_occ (document_title_block ctx) (open_token n)
    = (if n = ''NEBE_DOCUMENT_TITLE'' then 1 else 0)"
  using assms(3) marker_free_count[OF assms(1,3)] marker_free_count[OF assms(2,3)]
  by (cases rule: markers_elim)
    (simp_all add: document_title_block_def open_token_def count_occ_sep)

lemma visual_helper_block_count:
  assumes "(n, q) \<in> set markers"
  shows "count_occ (visual_helper_block ctx) (open_token n)
    = (if n = ''NEBE_VISUAL_HELPER'' then 1 else 0)"
  using assms
  by (cases rule: markers_elim)
    (simp_all add: visual_helper_block_def visualHelperUrl_def open_token_def count_occ_sep)

lemma absent_insert:
  assumes "CHR ''\<newline>'' \<notin> set t" and "\<not> sublist t (x @ z)" and "\<not> sublist t blk"
  shows "\<not> sublist t (x @ CHR ''\<newline>'' # blk @ CHR ''\<newline>'' # z)"
proof -
  from assms(2) have "\<not> sublist t x" "\<not> sublist t z" by (auto simp: sublist_append)
  with assms(3) show ?thesis
    using sublist_sep[OF assms(1), of x "blk @ CHR ''\<newline>'' # z"]
      sublist_sep[OF assms(1), of blk z] by simp
qed

lemma insert_at:
  assumes "fst st = x @ anchor @ y"
    and "\<not> sublist (open_token name) (x @ anchor @ y)"
    and "\<not> sublist anchor (x @ butlast anchor)" and "anchor \<noteq> []"
    and "CHR 0x24 \<notin> set block" and "CHR 0x24 \<notin> set anchor"
  shows "fst (add_marker dbg name anchor (''\<newline>'' @ block @ ''\<newline>'' @ anchor) st)
    = x @ CHR ''\<newline>'' # block @ CHR ''\<newline>'' # anchor @ y"
  using assms by (simp add: add_marker_text replace_js_first)

lemma block_head:
  "\<not> sublist ''</head>'' polyfills_block"
  "\<not> sublist ''</head>'' (visual_client_block ctx)"
  "\<not> sublist ''</head>'' (folder ctx) \<Longrightarrow> \<not> sublist ''</head>'' (env_block ctx)"
  "\<not> sublist ''</head>'' (folder ctx) \<Longrightarrow> \<not> sublist ''</head>'' (visualPath ctx) \<Longrightarrow>
     \<not> sublist ''</head>'' (document_title_block ctx)"
  by (simp_all add: polyfills_block_def visual_client_block_def visualClientScript_def
      env_block_def document_title_block_def sublist_Cons_right sublist_sep
      toString_no_sublist[of "CHR ''<''"])

lemma token_newline: "(n, q) \<in> set markers \<Longrightarrow> CHR ''\<newline>'' \<notin> set (open_token n)"
  by (erule markers_elim) (simp_all add: open_token_def)

section \<open>A document with both anchors\<close>

lemma block_absent:
  assumes "(n, q) \<in> set markers"
  shows "n \<noteq> ''NEBE_POLYFILLS'' \<Longrightarrow> \<not> sublist (open_token n) polyfills_block"
    and "marker_free (fill ctx) \<Longrightarrow> n \<noteq> ''NEBE_DEMO_FILL'' \<Longrightarrow>
          \<not> sublist (open_token n) (demo_fill_block ctx)"
    and "n \<noteq> ''NEBE_VISUAL_CLIENT'' \<Longrightarrow> \<not> sublist (open_token n) (visual_client_block ctx)"
    and "marker_free (folder ctx) \<Longrightarrow> n \<noteq> ''NEBE_ENV'' \<Longrightarrow>
          \<not> sublist (open_token n) (env_block ctx)"
    and "marker_free (folder ctx) \<Longrightarrow> marker_free (visualPath ctx) \<Longrightarrow>
          n \<noteq> ''NEBE_DOCUMENT_TITLE'' \<Longrightarrow> \<not> sublist (open_token n) (document_title_block ctx)"
    and "n \<noteq> ''NEBE_VISUAL_HELPER'' \<Longrightarrow> \<not> sublist (open_token n) (visual_helper_block ctx)"
  using polyfills_block_count[OF assms] demo_fill_block_count[OF _ assms, of ctx]
    visual_client_block_count[OF assms, of ctx] env_block_count[OF _ assms, of ctx]
    document_title_block_count[OF _ _ assms, of ctx] visual_helper_block_count[OF assms, of ctx]
  by (simp_all add: count_occ_zero_iff[symmetric])

lemma marker_free_absent:
  "marker_free s \<Longrightarrow> (n, q) \<in> set markers \<Longrightarrow> \<not> sublist (open_token n) s"
  unfolding marker_free_def list_all_iff by blast

lemma markup_typical_text:
  assumes i: "inert_inputs ctx"
    and mf: "marker_free (a @ ''</head>'' @ b @ ''</body>'' @ c)"
    and fh: "\<not> sublist ''</head>'' (a @ ''</head'')"
    and fb: "\<not> sublist ''</body>'' (a @ ''</head>'' @ b @ ''</body'')"
  shows "markup ctx (a @ ''</head>'' @ b @ ''</body>'' @ c) =
     a @ ''\<newline>'' @ polyfills_block @ ''\<newline>''
       @ ''\<newline>'' @ visual_client_block ctx @ ''\<newline>''
       @ ''\<newline>'' @ env_block ctx @ ''\<newline>''
       @ ''\<newline>'' @ document_title_block ctx @ ''\<newline>''
       @ ''\<newline>'' @ visual_helper_block ctx @ ''\<newline>''
       @ ''</head>'' @ b @ ''\<newline>'' @ demo_fill_block ctx @ ''\<newline>'' @ ''</body>'' @ c"
proof -
  define H where "H = ''</head>''"
  define B where "B = ''</body>''"
  define X1 where "X1 = a @ CHR ''\<newline>'' # polyfills_block @ ''\<newline>''"
  define X2 where "X2 = X1 @ CHR ''\<newline>'' # visual_client_block ctx @ ''\<newline>''"
  define X3 where "X3 = X2 @ CHR ''\<newline>'' # env_block ctx @ ''\<newline>''"
  define X4 where "X4 = X3 @ CHR ''\<newline>'' # document_title_block ctx @ ''\<newline>''"
  define X5 where "X5 = X4 @ CHR ''\<newline>'' # visual_helper_block ctx @ ''\<newline>''"
  define Y0 where "Y0 = b @ B @ c"
  define Y1 where "Y1 = b @ CHR ''\<newline>'' # demo_fill_block ctx @ CHR ''\<newline>'' # B @ c"
  from i have lit: "literal_inputs ctx" and mfi: "marker_free (fill ctx)"
    "marker_free (folder ctx)" "marker_free (visualPath ctx)"
    and hi: "\<not> sublist ''</head>'' (folder ctx)" "\<not> sublist ''</head>'' (visualPath ctx)"
    by (simp_all add: inert_inputs_def)
  have Hne: "H \<noteq> []" "CHR 0x24 \<notin> set H" "CHR ''\<newline>'' \<notin> set H" "butlast H = ''</head''"
    and Bne: "B \<noteq> []" "CHR 0x24 \<notin> set B" "CHR ''\<newline>'' \<notin> set B" "butlast B = ''</body''"
    by (simp_all add: H_def B_def)
  have fh0: "\<not> sublist H (a @ butlast H)" using fh by (simp add: H_def)
  have fb0: "\<not> sublist B (a @ H @ b @ butlast B)" using fb by (simp add: H_def B_def)
  have t0: "\<not> sublist (open_token n) (a @ H @ Y0)" if "(n, q) \<in> set markers" for n q
    using marker_free_absent[OF mf that] by (simp add: H_def B_def Y0_def)
  have t1: "\<not> sublist (open_token n) (X1 @ H @ Y0)"
    if "(n, q) \<in> set markers" "n \<noteq> ''NEBE_POLYFILLS''" for n q
    using absent_insert[OF token_newline[OF that(1)] t0[OF that(1)] block_absent(1)[OF that]]
    by (simp add: X1_def)
  have t2: "\<not> sublist (open_token n) (X1 @ H @ Y1)"
    if "(n, q) \<in> set markers" "n \<noteq> ''NEBE_POLYFILLS''" "n \<noteq> ''NEBE_DEMO_FILL''" for n q
  proof -
    from t1[OF that(1,2)] have "\<not> sublist (open_token n) ((X1 @ H @ b) @ B @ c)"
      by (simp add: Y0_def)
    from absent_insert[OF token_newline[OF that(1)] this block_absent(2)[OF that(1) mfi(1) that(3)]]
    show ?thesis by (simp add: Y1_def)
  qed
  have t3: "\<not> sublist (open_token n) (X2 @ H @ Y1)"
    if "(n, q) \<in> set markers" "n \<noteq> ''NEBE_POLYFILLS''" "n \<noteq> ''NEBE_DEMO_FILL''"
      "n \<noteq> ''NEBE_VISUAL_CLIENT''" for n q
    using absent_insert[OF token_newline[OF that(1)] t2[OF that(1,2,3)]
        block_absent(3)[OF that(1,4)]]
    by (simp add: X2_def)
  have t4: "\<not> sublist (open_token n) (X3 @ H @ Y1)"
    if "(n, q) \<in> set markers" "n \<noteq> ''NEBE_POLYFILLS''" "n \<noteq> ''NEBE_DEMO_FILL''"
      "n \<noteq> ''NEBE_VISUAL_CLIENT''" "n \<noteq> ''NEBE_ENV''" for n q
    using absent_insert[OF token_newline[OF that(1)] t3[OF that(1,2,3,4)]
        block_absent(4)[OF that(1) mfi(2) that(5)]]
    by (simp add: X3_def)
  have t5: "\<not> sublist (open_token n) (X4 @ H @ Y1)"
    if "(n, q) \<in> set markers" "n \<noteq> ''NEBE_POLYFILLS''" "n \<noteq> ''NEBE_DEMO_FILL''"
      "n \<noteq> ''NEBE_VISUAL_CLIENT''" "n \<noteq> ''NEBE_ENV''" "n \<noteq> ''NEBE_DOCUMENT_TITLE''" for n q
    using absent_insert[OF token_newline[OF that(1)] t4[OF that(1,2,3,4,5)]
        block_absent(5)[OF that(1) mfi(2,3) that(6)]]
    by (simp add: X4_def)
  have h1: "\<not> sublist H (X1 @ butlast H)"
    using absent_insert[OF Hne(3) fh0, of polyfills_block] block_head(1)
    by (simp add: X1_def H_def)
  have h2: "\<not> sublist H (X2 @ butlast H)"
    using absent_insert[OF Hne(3) h1, of "visual_client_block ctx"] block_head(2)[of ctx]
    by (simp add: X2_def H_def)
  have h3: "\<not> sublist H (X3 @ butlast H)"
    using absent_insert[OF Hne(3) h2, of "env_block ctx"] block_head(3)[OF hi(1)]
    by (simp add: X3_def H_def)
  have h4: "\<not> sublist H (X4 @ butlast H)"
    using absent_insert[OF Hne(3) h3, of "document_title_block ctx"] block_head(4)[OF hi]
    by (simp add: X4_def H_def)
  have b1: "\<not> sublist B ((X1 @ H @ b) @ butlast B)"
    using absent_insert[OF Bne(3), of a "H @ b @ butlast B" polyfills_block] fb0 body_polyfills
    by (simp add: X1_def B_def)
  have r1: "fst (add_polyfills ctx st) = X1 @ H @ Y0" if "fst st = a @ H @ Y0" for st
    unfolding step_forms
    using insert_at[OF _ _ fh0 Hne(1) block_dollar(1) Hne(2), of st Y0 "''NEBE_POLYFILLS''"]
      that t0[OF markers_mem(1)]
    by (simp add: X1_def H_def)
  have r2: "fst (add_demo_fill ctx st) = X1 @ H @ Y1" if "fst st = X1 @ H @ Y0" for st
    unfolding step_forms
    using insert_at[OF _ _ b1 Bne(1) block_dollar(2)[OF lit] Bne(2), of st c "''NEBE_DEMO_FILL''"]
      that t1[OF markers_mem(2)]
    by (simp add: Y0_def Y1_def B_def)
  have r3: "fst (add_visual_client ctx st) = X2 @ H @ Y1" if "fst st = X1 @ H @ Y1" for st
    unfolding step_forms
    using insert_at[OF _ _ h1 Hne(1) block_dollar(3) Hne(2), of st Y1 "''NEBE_VISUAL_CLIENT''"]
      that t2[OF markers_mem(3)]
    by (simp add: X2_def H_def)
  have r4: "fst (add_env ctx st) = X3 @ H @ Y1" if "fst st = X2 @ H @ Y1" for st
    unfolding step_forms
    using insert_at[OF _ _ h2 Hne(1) block_dollar(4)[OF lit] Hne(2), of st Y1 "''NEBE_ENV''"]
      that t3[OF markers_mem(4)]
    by (simp add: X3_def H_def)
  have r5: "fst (add_document_title ctx st) = X4 @ H @ Y1" if "fst st = X3 @ H @ Y1" for st
    unfolding step_forms
    using insert_at[OF _ _ h3 Hne(1) block_dollar(5)[OF lit] Hne(2), of st Y1 "''NEBE_DOCUMENT_TITLE''"]
      that t4[OF markers_mem(5)]
    by (simp add: X4_def H_def)
  have r6: "fst (add_visual_helper ctx st) = X5 @ H @ Y1" if "fst st = X4 @ H @ Y1" for st
    unfolding step_forms
    using insert_at[OF _ _ h4 Hne(1) block_dollar(6) Hne(2), of st Y1 "''NEBE_VISUAL_HELPER''"]
      that t5[OF markers_mem(6)]
    by (simp add: X5_def H_def)
  have "markup ctx (a @ H @ Y0) = X5 @ H @ Y1"
    unfolding markup_def inject_markers_def Let_def
    by (intro r6 r5 r4 r3 r2 r1 | simp only: fst_conv)+
  then show ?thesis
    by (simp add: X5_def X4_def X3_def X2_def X1_def Y1_def Y0_def H_def B_def)
qed

lemma indexOf_le: "indexOf s p = Some i \<Longrightarrow> i \<le> length s"
  by (induction s arbitrary: i) (auto split: if_splits)

lemma indexOf_append_left: "sublist p x \<Longrightarrow> indexOf (x @ z) p = indexOf x p"
proof (induction x)
  case Nil
  then show ?case by (cases z) auto
next
  case (Cons c cs)
  then have len: "length p \<le> length (c # cs)" by (auto dest: sublist_length_le)
  have pre: "prefix p ((c # cs) @ z) \<longleftrightarrow> prefix p (c # cs)"
    using len by (metis prefix_length_prefix prefix_append prefixI prefix_order.refl
        append_prefixD prefix_prefix)
  show ?case
  proof (cases "prefix p (c # cs)")
    case True
    with pre show ?thesis by simp
  next
    case False
    with Cons.prems have "sublist p cs" by (simp add: sublist_Cons_right)
    with Cons.IH False pre show ?thesis by simp
  qed
qed

lemma indexOf_sep:
  assumes "c \<notin> set q" and "\<not> sublist q x"
  shows "indexOf (x @ c # y) q = map_option (\<lambda>j. j + Suc (length x)) (indexOf y q)"
  using assms(2)
proof (induction x)
  case Nil
  then have "q \<noteq> []" by auto
  with assms(1) have "\<not> prefix q (c # y)" by (cases q) auto
  then show ?case by (simp add: option.map_comp comp_def option.map_ident)
next
  case (Cons a x)
  then have np: "\<not> prefix q (a # x)" and ns: "\<not> sublist q x"
    by (auto simp: sublist_Cons_right)
  from np have "\<not> prefix q ((a # x) @ c # y)"
    using prefix_sep[OF assms(1), of "a # x" y] by simp
  with Cons.IH[OF ns] show ?case
    by (simp add: option.map_comp comp_def)
qed

lemma before_sep:
  assumes "c \<notin> set q" and "count_occ x p \<noteq> 0" and "count_occ x q = 0"
    and "count_occ y q \<noteq> 0"
  shows "before p q (x @ c # y)"
proof -
  from assms(2) have px: "sublist p x" by (simp add: count_occ_zero_iff)
  from assms(3) have qx: "\<not> sublist q x" by (simp add: count_occ_zero_iff)
  from assms(4) have "sublist q y" by (simp add: count_occ_zero_iff)
  then obtain j where j: "indexOf y q = Some j"
    using indexOf_None_iff[of y q] by auto
  from px obtain i where i: "indexOf x p = Some i"
    using indexOf_None_iff[of x p] by auto
  from i have "i \<le> length x" by (rule indexOf_le)
  moreover from px i have "indexOf (x @ c # y) p = Some i"
    by (simp add: indexOf_append_left)
  moreover from j have "indexOf (x @ c # y) q = Some (j + Suc (length x))"
    by (simp add: indexOf_sep[OF assms(1) qx])
  ultimately show ?thesis by (simp add: before_def)
qed

lemma before_trans: "before p q s \<Longrightarrow> before q r s \<Longrightarrow> before p r s"
  by (auto simp: before_def split: option.splits)

lemma before_asym: "before p q s \<Longrightarrow> \<not> before q p s"
  by (auto simp: before_def split: option.splits)

lemma count_occ_Cons_sep: "c \<notin> set p \<Longrightarrow> count_occ (c # b) p = count_occ [] p + count_occ b p"
  using count_occ_sep[of c p "[]" b] by simp

lemma sublist_mid: "sublist q y \<Longrightarrow> sublist q (u @ y @ w)"
  by (auto simp: sublist_append)

lemma count_occ_append_pos: "count_occ y q \<noteq> 0 \<Longrightarrow> count_occ (u @ y @ w) q \<noteq> 0"
  by (simp add: count_occ_zero_iff sublist_mid)

lemma count_layout:
  assumes nl: "CHR ''\<newline>'' \<notin> set t" and ne: "t \<noteq> []"
  shows "count_occ (a @ CHR ''\<newline>'' # P @ CHR ''\<newline>'' # CHR ''\<newline>'' # V
           @ CHR ''\<newline>'' # CHR ''\<newline>'' # E @ CHR ''\<newline>'' # CHR ''\<newline>'' # T
           @ CHR ''\<newline>'' # CHR ''\<newline>'' # Hh @ CHR ''\<newline>'' # hb
           @ CHR ''\<newline>'' # F @ CHR ''\<newline>'' # bc) t
     = count_occ a t + count_occ P t + count_occ V t + count_occ E t + count_occ T t
       + count_occ Hh t + count_occ hb t + count_occ F t + count_occ bc t"
  using ne by (simp only: count_occ_sep[OF nl] count_occ_Cons_sep[OF nl] count_occ.simps(1))
    simp

lemma before_blocks:
  assumes nl: "CHR ''\<newline>'' \<notin> set q"
    and "count_occ u q = 0" and "count_occ X p \<noteq> 0" and "count_occ X q = 0"
    and "count_occ Y q \<noteq> 0"
  shows "before p q (u @ CHR ''\<newline>'' # X @ CHR ''\<newline>'' # z @ Y @ w)"
proof -
  have "before p q ((u @ CHR ''\<newline>'' # X) @ CHR ''\<newline>'' # (z @ Y @ w))"
  proof (rule before_sep[OF nl])
    from assms(3) have "sublist p X" by (simp add: count_occ_zero_iff)
    then have "sublist p (u @ CHR ''\<newline>'' # X)" by (metis sublist_append sublist_Cons_right)
    then show "count_occ (u @ CHR ''\<newline>'' # X) p \<noteq> 0" by (simp add: count_occ_zero_iff)
    show "count_occ (u @ CHR ''\<newline>'' # X) q = 0"
      using assms(2,4) by (simp add: count_occ_sep[OF nl])
    show "count_occ (z @ Y @ w) q \<noteq> 0" using assms(5) by (rule count_occ_append_pos)
  qed
  then show ?thesis by simp
qed

lemma markup_typical_markers:
  assumes i: "inert_inputs ctx"
    and mf: "marker_free (a @ ''</head>'' @ b @ ''</body>'' @ c)"
    and fh: "\<not> sublist ''</head>'' (a @ ''</head'')"
    and fb: "\<not> sublist ''</body>'' (a @ ''</head>'' @ b @ ''</body'')"
  shows "list_all (\<lambda>(n, q). count_occ (markup ctx (a @ ''</head>'' @ b @ ''</body>'' @ c))
            (open_token n) = 1) markers"
    and "before (open_token ''NEBE_POLYFILLS'') (open_token ''NEBE_VISUAL_CLIENT'')
           (markup ctx (a @ ''</head>'' @ b @ ''</body>'' @ c))"
    and "before (open_token ''NEBE_VISUAL_CLIENT'') (open_token ''NEBE_ENV'')
           (markup ctx (a @ ''</head>'' @ b @ ''</body>'' @ c))"
    and "before (open_token ''NEBE_ENV'') (open_token ''NEBE_DOCUMENT_TITLE'')
           (markup ctx (a @ ''</head>'' @ b @ ''</body>'' @ c))"
    and "before (open_token ''NEBE_DOCUMENT_TITLE'') (open_token ''NEBE_VISUAL_HELPER'')
           (markup ctx (a @ ''</head>'' @ b @ ''</body>'' @ c))"
    and "before (open_token ''NEBE_VISUAL_HELPER'') (open_token ''NEBE_DEMO_FILL'')
           (markup ctx (a @ ''</head>'' @ b @ ''</body>'' @ c))"
proof -
  define r where "r = markup ctx (a @ ''</head>'' @ b @ ''</body>'' @ c)"
  define hb where "hb = ''</head>'' @ b"
  define bc where "bc = ''</body>'' @ c"
  define P where "P = polyfills_block"
  define V where "V = visual_client_block ctx"
  define E where "E = env_block ctx"
  define T where "T = document_title_block ctx"
  define Hh where "Hh = visual_helper_block ctx"
  define F where "F = demo_fill_block ctx"
  from i have mfi: "marker_free (fill ctx)" "marker_free (folder ctx)"
    "marker_free (visualPath ctx)"
    by (simp_all add: inert_inputs_def)
  have r_eq: "r = a @ CHR ''\<newline>'' # P @ CHR ''\<newline>'' # CHR ''\<newline>'' # V
           @ CHR ''\<newline>'' # CHR ''\<newline>'' # E @ CHR ''\<newline>'' # CHR ''\<newline>'' # T
           @ CHR ''\<newline>'' # CHR ''\<newline>'' # Hh @ CHR ''\<newline>'' # hb
           @ CHR ''\<newline>'' # F @ CHR ''\<newline>'' # bc"
    unfolding r_def markup_typical_text[OF assms]
    by (simp add: hb_def bc_def P_def V_def E_def T_def Hh_def F_def)
  have z: "count_occ a (open_token n) = 0" "count_occ hb (open_token n) = 0"
    "count_occ bc (open_token n) = 0" if "(n, q) \<in> set markers" for n q
  proof -
    from marker_free_absent[OF mf that]
    have "\<not> sublist (open_token n) (a @ hb @ bc)" by (simp add: hb_def bc_def)
    then show "count_occ a (open_token n) = 0" "count_occ hb (open_token n) = 0"
      "count_occ bc (open_token n) = 0"
      by (auto simp: count_occ_zero_iff sublist_append)
  qed
  have ne: "open_token n \<noteq> []" for n by (simp add: open_token_def)
  have cnt: "count_occ P (open_token n) = (if n = ''NEBE_POLYFILLS'' then 1 else 0)"
    "count_occ F (open_token n) = (if n = ''NEBE_DEMO_FILL'' then 1 else 0)"
    "count_occ V (open_token n) = (if n = ''NEBE_VISUAL_CLIENT'' then 1 else 0)"
    "count_occ E (open_token n) = (if n = ''NEBE_ENV'' then 1 else 0)"
    "count_occ T (open_token n) = (if n = ''NEBE_DOCUMENT_TITLE'' then 1 else 0)"
    "count_occ Hh (open_token n) = (if n = ''NEBE_VISUAL_HELPER'' then 1 else 0)"
    if "(n, q) \<in> set markers" for n q
    unfolding P_def F_def V_def E_def T_def Hh_def
    using polyfills_block_count[OF that] demo_fill_block_count[OF mfi(1) that]
      visual_client_block_count[OF that] env_block_count[OF mfi(2) that]
      document_title_block_count[OF mfi(2,3) that] visual_helper_block_count[OF that]
    by blast+
  have total: "count_occ r (open_token n) = 1" if m: "(n, q) \<in> set markers" for n q
  proof -
    have "count_occ r (open_token n) =
        (if n = ''NEBE_POLYFILLS'' then 1 else 0) + (if n = ''NEBE_VISUAL_CLIENT'' then 1 else 0)
        + (if n = ''NEBE_ENV'' then 1 else 0) + (if n = ''NEBE_DOCUMENT_TITLE'' then 1 else 0)
        + (if n = ''NEBE_VISUAL_HELPER'' then 1 else 0) + (if n = ''NEBE_DEMO_FILL'' then 1 else 0)"
      unfolding r_eq count_layout[OF token_newline[OF m] ne] z[OF m] cnt[OF m] by simp
    with m show ?thesis by (cases rule: markers_elim) simp_all
  qed
  then show "list_all (\<lambda>(n, q). count_occ (markup ctx (a @ ''</head>'' @ b @ ''</body>'' @ c))
            (open_token n) = 1) markers"
    unfolding r_def list_all_iff by auto
  note nl = token_newline[OF markers_mem(1)] token_newline[OF markers_mem(2)]
    token_newline[OF markers_mem(3)] token_newline[OF markers_mem(4)]
    token_newline[OF markers_mem(5)] token_newline[OF markers_mem(6)]
  note zs = z[OF markers_mem(1)] z[OF markers_mem(2)] z[OF markers_mem(3)] z[OF markers_mem(4)]
    z[OF markers_mem(5)] z[OF markers_mem(6)]
  note cs = cnt[OF markers_mem(1)] cnt[OF markers_mem(2)] cnt[OF markers_mem(3)]
    cnt[OF markers_mem(4)] cnt[OF markers_mem(5)] cnt[OF markers_mem(6)]
  have "before (open_token ''NEBE_POLYFILLS'') (open_token ''NEBE_VISUAL_CLIENT'') r"
    unfolding r_eq
    using before_blocks[OF nl(3), of a P "open_token ''NEBE_POLYFILLS''" V "''\<newline>''"]
    by (simp add: zs cs)
  then show "before (open_token ''NEBE_POLYFILLS'') (open_token ''NEBE_VISUAL_CLIENT'')
           (markup ctx (a @ ''</head>'' @ b @ ''</body>'' @ c))"
    by (simp only: r_def)
  have "before (open_token ''NEBE_VISUAL_CLIENT'') (open_token ''NEBE_ENV'') r"
    unfolding r_eq
    using before_blocks[OF nl(4), of "a @ CHR ''\<newline>'' # P @ ''\<newline>''" V
        "open_token ''NEBE_VISUAL_CLIENT''" E "''\<newline>''"]
    by (simp add: ne zs cs count_occ_sep[OF nl(4)] count_occ_Cons_sep[OF nl(4)] del: count_occ.simps(2))
  then show "before (open_token ''NEBE_VISUAL_CLIENT'') (open_token ''NEBE_ENV'')
           (markup ctx (a @ ''</head>'' @ b @ ''</body>'' @ c))"
    by (simp only: r_def)
  have "before (open_token ''NEBE_ENV'') (open_token ''NEBE_DOCUMENT_TITLE'') r"
    unfolding r_eq
    using before_blocks[OF nl(5), of "a @ CHR ''\<newline>'' # P @ CHR ''\<newline>'' # CHR ''\<newline>'' # V @ ''\<newline>''" E
        "open_token ''NEBE_ENV''" T "''\<newline>''"]
    by (simp add: ne zs cs count_occ_sep[OF nl(5)] count_occ_Cons_sep[OF nl(5)] del: count_occ.simps(2))
  then show "before (open_token ''NEBE_ENV'') (open_token ''NEBE_DOCUMENT_TITLE'')
           (markup ctx (a @ ''</head>'' @ b @ ''</body>'' @ c))"
    by (simp only: r_def)
  have "before (open_token ''NEBE_DOCUMENT_TITLE'') (open_token ''NEBE_VISUAL_HELPER'') r"
    unfolding r_eq
    using before_blocks[OF nl(6), of "a @ CHR ''\<newline>'' # P @ CHR ''\<newline>'' # CHR ''\<newline>'' # V
           @ CHR ''\<newline>'' # CHR ''\<newline>'' # E @ ''\<newline>''" T
        "open_token ''NEBE_DOCUMENT_TITLE''" Hh "''\<newline>''"]
    by (simp add: ne zs cs count_occ_sep[OF nl(6)] count_occ_Cons_sep[OF nl(6)] del: count_occ.simps(2))
  then show "before (open_token ''NEBE_DOCUMENT_TITLE'') (open_token ''NEBE_VISUAL_HELPER'')
           (markup ctx (a @ ''</head>'' @ b @ ''</body>'' @ c))"
    by (simp only: r_def)
  have "before (open_token ''NEBE_VISUAL_HELPER'') (open_token ''NEBE_DEMO_FILL'') r"
    unfolding r_eq
    using before_blocks[OF nl(2), of "a @ CHR ''\<newline>'' # P @ CHR ''\<newline>'' # CHR ''\<newline>'' # V
           @ CHR ''\<newline>'' # CHR ''\<newline>'' # E @ CHR ''\<newline>'' # CHR ''\<newline>'' # T @ ''\<newline>''" Hh
        "open_token ''NEBE_VISUAL_HELPER''" F "hb @ ''\<newline>''" "CHR ''\<newline>'' # bc"]
    by (simp add: ne zs cs count_occ_sep[OF nl(2)] count_occ_Cons_sep[OF nl(2)] del: count_occ.simps(2))
  then show "before (open_token ''NEBE_VISUAL_HELPER'') (open_token ''NEBE_DEMO_FILL'')
           (markup ctx (a @ ''</head>'' @ b @ ''</body>'' @ c))"
    by (simp only: r_def)
qed

section \<open>What a pass adds and what it skips\<close>






section \<open>Properties of the markup\<close>

lemma add_marker_skipped:
  assumes "\<not> sublist anchor (fst st)"
  shows "skipped (add_marker dbg name anchor rep) st"
proof -
  from assms have "fst (add_marker dbg name anchor rep st) = fst st"
    by (simp add: add_marker_fixed settled_def)
  moreover have "snd (add_marker dbg name anchor rep st) = snd st
      \<or> snd (add_marker dbg name anchor rep st) = snd st @ [(Log, ''Adding '' @ name @ '' to markup'')]
      \<or> snd (add_marker dbg name anchor rep st) = snd st @ [(Log, name @ '' already in markup'')]"
    by (cases st) (simp add: add_marker_def)
  ultimately show ?thesis unfolding skipped_def by (elim disjE conjE) simp_all
qed

text \<open>
  Claim C10. When the text does not contain the anchor tag of a marker (\<^verbatim>\<open></head>\<close>, or
  \<^verbatim>\<open></body>\<close> for the demo fill), the marker's step leaves the text unchanged, and
  all it may print is a \<^verbatim>\<open>console.log\<close> line (with \<^verbatim>\<open>--debug\<close>): no error, no
  warning. The content is silently not inserted.
\<close>

theorem missing_anchor_skips:
  "(\<not> sublist ''</head>'' (fst st) \<longrightarrow> skipped (add_polyfills ctx) st)
   \<and> (\<not> sublist ''</body>'' (fst st) \<longrightarrow> skipped (add_demo_fill ctx) st)
   \<and> (\<not> sublist ''</head>'' (fst st) \<longrightarrow> skipped (add_visual_client ctx) st)
   \<and> (\<not> sublist ''</head>'' (fst st) \<longrightarrow> skipped (add_env ctx) st)
   \<and> (\<not> sublist ''</head>'' (fst st) \<longrightarrow> skipped (add_document_title ctx) st)
   \<and> (\<not> sublist ''</head>'' (fst st) \<longrightarrow> skipped (add_visual_helper ctx) st)"
  unfolding add_polyfills_def add_demo_fill_def add_visual_client_def add_env_def
    add_document_title_def add_visual_helper_def
  by (intro conjI impI add_marker_skipped)

theorem missing_anchor_skips_witness:
  "\<not> sublist ''</head>'' (fst (''<p>Hello</p>'', [] :: console))
   \<and> \<not> sublist ''</body>'' (fst (''<p>Hello</p>'', [] :: console))
   \<and> skipped (add_polyfills \<lparr>local = False, debug = True, fill = ''{}'', folder = ''300x300'',
          visualPath = ''brand/visual'', now = 1700000000000\<rparr>) (''<p>Hello</p>'', [])
   \<and> skipped (add_demo_fill \<lparr>local = False, debug = True, fill = ''{}'', folder = ''300x300'',
          visualPath = ''brand/visual'', now = 1700000000000\<rparr>) (''<p>Hello</p>'', [])"
proof -
  have h: "sublist ''</head>'' (fst (''<p>Hello</p>'', ([] :: console))) = False"
    "sublist ''</body>'' (fst (''<p>Hello</p>'', ([] :: console))) = False"
    by (simp_all add: sublist_Cons_right)
  note t = missing_anchor_skips[of "(''<p>Hello</p>'', [])"
      "\<lparr>local = False, debug = True, fill = ''{}'', folder = ''300x300'',
          visualPath = ''brand/visual'', now = 1700000000000\<rparr>", unfolded h simp_thms]
  from t show ?thesis unfolding h simp_thms by (elim conjE) (intro conjI; assumption)
qed




text \<open>
  Claim C3, as amended. Take a document that contains none of the six open tokens, whose
  first \<^verbatim>\<open></head>\<close> comes before its first \<^verbatim>\<open></body>\<close> (the document is \<open>a\<close>, that
  \<^verbatim>\<open></head>\<close>, \<open>b\<close>, that \<^verbatim>\<open></body>\<close>, \<open>c\<close>), and a fill, a folder name and a visual
  path without dollar sign and open token (the folder name and the visual path also
  without \<^verbatim>\<open></head>\<close>). One pass then puts the blocks of the polyfills, the visual
  client, the environment, the document title and the visual helper, in this order,
  directly before that \<^verbatim>\<open></head>\<close>, and the block of the demo fill directly before that
  \<^verbatim>\<open></body>\<close>, and changes nothing else. So the result holds six markers, each open token
  exactly once, and they stand in the text in the order polyfills, visual client,
  environment, document title, visual helper, demo fill.
\<close>

theorem injection_on_typical_document:
  assumes "inert_inputs ctx"
    and "d = a @ ''</head>'' @ b @ ''</body>'' @ c"
    and "marker_free d"
    and "\<not> sublist ''</head>'' (a @ ''</head'')"
    and "\<not> sublist ''</body>'' (a @ ''</head>'' @ b @ ''</body'')"
  shows "markup ctx d =
       a @ ''\<newline>'' @ polyfills_block @ ''\<newline>''
         @ ''\<newline>'' @ visual_client_block ctx @ ''\<newline>''
         @ ''\<newline>'' @ env_block ctx @ ''\<newline>''
         @ ''\<newline>'' @ document_title_block ctx @ ''\<newline>''
         @ ''\<newline>'' @ visual_helper_block ctx @ ''\<newline>''
         @ ''</head>'' @ b @ ''\<newline>'' @ demo_fill_block ctx @ ''\<newline>'' @ ''</body>'' @ c
    \<and> list_all (\<lambda>(n, q). count_occ (markup ctx d) (open_token n) = 1) markers
    \<and> before (open_token ''NEBE_POLYFILLS'') (open_token ''NEBE_VISUAL_CLIENT'') (markup ctx d)
    \<and> before (open_token ''NEBE_VISUAL_CLIENT'') (open_token ''NEBE_ENV'') (markup ctx d)
    \<and> before (open_token ''NEBE_ENV'') (open_token ''NEBE_DOCUMENT_TITLE'') (markup ctx d)
    \<and> before (open_token ''NEBE_DOCUMENT_TITLE'') (open_token ''NEBE_VISUAL_HELPER'') (markup ctx d)
    \<and> before (open_token ''NEBE_VISUAL_HELPER'') (open_token ''NEBE_DEMO_FILL'') (markup ctx d)"
  using markup_typical_text[OF assms(1) assms(3)[unfolded assms(2)] assms(4,5)]
    markup_typical_markers[OF assms(1) assms(3)[unfolded assms(2)] assms(4,5)]
  unfolding assms(2) by (intro conjI)

theorem injection_on_typical_document_witness:
  "inert_inputs \<lparr>local = False, debug = False, fill = ''<script>window.FILL = {};</script>'',
       folder = ''300x300'', visualPath = ''brand/visual'', now = 1700000000000\<rparr>
   \<and> marker_free ''<html><head></head><body><main></main></body></html>''
   \<and> \<not> sublist ''</head>'' (''<html><head>'' @ ''</head'')
   \<and> \<not> sublist ''</body>'' (''<html><head>'' @ ''</head>'' @ ''<body><main></main>'' @ ''</body'')
   \<and> markup \<lparr>local = False, debug = False, fill = ''<script>window.FILL = {};</script>'',
       folder = ''300x300'', visualPath = ''brand/visual'', now = 1700000000000\<rparr>
       ''<html><head></head><body><main></main></body></html>'' =
       ''<html><head>'' @ ''\<newline>'' @ polyfills_block @ ''\<newline>''
         @ ''\<newline>'' @ visual_client_block \<lparr>local = False, debug = False, fill = ''<script>window.FILL = {};</script>'',
       folder = ''300x300'', visualPath = ''brand/visual'', now = 1700000000000\<rparr> @ ''\<newline>''
         @ ''\<newline>'' @ env_block \<lparr>local = False, debug = False, fill = ''<script>window.FILL = {};</script>'',
       folder = ''300x300'', visualPath = ''brand/visual'', now = 1700000000000\<rparr> @ ''\<newline>''
         @ ''\<newline>'' @ document_title_block \<lparr>local = False, debug = False, fill = ''<script>window.FILL = {};</script>'',
       folder = ''300x300'', visualPath = ''brand/visual'', now = 1700000000000\<rparr> @ ''\<newline>''
         @ ''\<newline>'' @ visual_helper_block \<lparr>local = False, debug = False, fill = ''<script>window.FILL = {};</script>'',
       folder = ''300x300'', visualPath = ''brand/visual'', now = 1700000000000\<rparr> @ ''\<newline>''
         @ ''</head>'' @ ''<body><main></main>'' @ ''\<newline>'' @ demo_fill_block \<lparr>local = False, debug = False, fill = ''<script>window.FILL = {};</script>'',
       folder = ''300x300'', visualPath = ''brand/visual'', now = 1700000000000\<rparr>
         @ ''\<newline>'' @ ''</body>'' @ ''</html>''
   \<and> list_all (\<lambda>(n, q). count_occ (markup \<lparr>local = False, debug = False, fill = ''<script>window.FILL = {};</script>'',
       folder = ''300x300'', visualPath = ''brand/visual'', now = 1700000000000\<rparr>
         ''<html><head></head><body><main></main></body></html>'') (open_token n) = 1) markers
   \<and> before (open_token ''NEBE_VISUAL_HELPER'') (open_token ''NEBE_DEMO_FILL'')
        (markup \<lparr>local = False, debug = False, fill = ''<script>window.FILL = {};</script>'',
       folder = ''300x300'', visualPath = ''brand/visual'', now = 1700000000000\<rparr>
         ''<html><head></head><body><main></main></body></html>'')"
proof -
  define c where "c = \<lparr>local = False, debug = False, fill = ''<script>window.FILL = {};</script>'',
       folder = ''300x300'', visualPath = ''brand/visual'', now = 1700000000000\<rparr>"
  define d where "d = ''<html><head></head><body><main></main></body></html>''"
  have i: "inert_inputs c"
    by (simp add: c_def inert_inputs_def literal_inputs_def marker_free_def markers_def
        open_token_def sublist_Cons_right)
  have e: "d = ''<html><head>'' @ ''</head>'' @ ''<body><main></main>'' @ ''</body>'' @ ''</html>''"
    by (simp add: d_def)
  have m: "marker_free d"
    by (simp add: d_def marker_free_def markers_def open_token_def sublist_Cons_right)
  have h: "\<not> sublist ''</head>'' (''<html><head>'' @ ''</head'')"
    by (simp add: sublist_Cons_right)
  have b: "\<not> sublist ''</body>'' (''<html><head>'' @ ''</head>'' @ ''<body><main></main>'' @ ''</body'')"
    by (simp add: sublist_Cons_right)
  from injection_on_typical_document[OF i e m h b] i m h b
  show ?thesis unfolding c_def d_def by (elim conjE) (intro conjI; assumption)
qed

text \<open>
  The order of the claim (environment, demo fill, visual client, document title, visual
  helper) is not the order in the text, and there is a sixth marker, the polyfills.
\<close>

theorem injection_order_counterexample:
  "marker_free ''<head></head><body></body>''
   \<and> count_occ (markup \<lparr>local = False, debug = False, fill = ''{}'', folder = ''300x300'',
         visualPath = ''brand/visual'', now = 0\<rparr> ''<head></head><body></body>'')
        (open_token ''NEBE_POLYFILLS'') = 1
   \<and> \<not> (before (open_token ''NEBE_ENV'') (open_token ''NEBE_DEMO_FILL'')
          (markup \<lparr>local = False, debug = False, fill = ''{}'', folder = ''300x300'',
             visualPath = ''brand/visual'', now = 0\<rparr> ''<head></head><body></body>'')
        \<and> before (open_token ''NEBE_DEMO_FILL'') (open_token ''NEBE_VISUAL_CLIENT'')
          (markup \<lparr>local = False, debug = False, fill = ''{}'', folder = ''300x300'',
             visualPath = ''brand/visual'', now = 0\<rparr> ''<head></head><body></body>'')
        \<and> before (open_token ''NEBE_VISUAL_CLIENT'') (open_token ''NEBE_DOCUMENT_TITLE'')
          (markup \<lparr>local = False, debug = False, fill = ''{}'', folder = ''300x300'',
             visualPath = ''brand/visual'', now = 0\<rparr> ''<head></head><body></body>'')
        \<and> before (open_token ''NEBE_DOCUMENT_TITLE'') (open_token ''NEBE_VISUAL_HELPER'')
          (markup \<lparr>local = False, debug = False, fill = ''{}'', folder = ''300x300'',
             visualPath = ''brand/visual'', now = 0\<rparr> ''<head></head><body></body>''))"
proof -
  define c where "c = \<lparr>local = False, debug = False, fill = ''{}'', folder = ''300x300'',
         visualPath = ''brand/visual'', now = 0\<rparr>"
  define r where "r = markup c (''<head>'' @ ''</head>'' @ ''<body>'' @ ''</body>'' @ [])"
  have i: "inert_inputs c"
    by (simp add: c_def inert_inputs_def literal_inputs_def marker_free_def markers_def
        open_token_def sublist_Cons_right)
  have m: "marker_free (''<head>'' @ ''</head>'' @ ''<body>'' @ ''</body>'' @ [])"
    by (simp add: marker_free_def markers_def open_token_def sublist_Cons_right)
  have h: "\<not> sublist ''</head>'' (''<head>'' @ ''</head'')"
    by (simp add: sublist_Cons_right)
  have b: "\<not> sublist ''</body>'' (''<head>'' @ ''</head>'' @ ''<body>'' @ ''</body'')"
    by (simp add: sublist_Cons_right)
  note t = markup_typical_markers[OF i m h b, folded r_def]
  from t(1) markers_mem(1) have one: "count_occ r (open_token ''NEBE_POLYFILLS'') = 1"
    unfolding list_all_iff by blast
  have "\<not> (before (open_token ''NEBE_ENV'') (open_token ''NEBE_DEMO_FILL'') r
        \<and> before (open_token ''NEBE_DEMO_FILL'') (open_token ''NEBE_VISUAL_CLIENT'') r)"
    using before_trans before_asym[OF t(3)] by blast
  then have neg: "\<not> (before (open_token ''NEBE_ENV'') (open_token ''NEBE_DEMO_FILL'') r
        \<and> before (open_token ''NEBE_DEMO_FILL'') (open_token ''NEBE_VISUAL_CLIENT'') r
        \<and> before (open_token ''NEBE_VISUAL_CLIENT'') (open_token ''NEBE_DOCUMENT_TITLE'') r
        \<and> before (open_token ''NEBE_DOCUMENT_TITLE'') (open_token ''NEBE_VISUAL_HELPER'') r)"
    by blast
  have r_eq: "r = markup c ''<head></head><body></body>''" by (simp add: r_def)
  from m have m': "marker_free ''<head></head><body></body>''" by simp
  from m' one neg show ?thesis unfolding r_eq c_def by (intro conjI)
qed

section \<open>Numbers as strings\<close>

lemma digit_char_props:
  assumes "k < 10"
  shows "is_digit (digit_char k)" and "digit_val (digit_char k) = k"
  using assms by (simp_all add: is_digit_def digit_val_def digit_char_def)

lemma toString_all_digits: "list_all is_digit (toString n)"
proof (induction n rule: toString.induct)
  case (1 n)
  show ?case
  proof (cases "n < 10")
    case True
    then show ?thesis by (subst toString.simps) (simp add: digit_char_props)
  next
    case False
    with "1.IH" show ?thesis
      by (subst toString.simps) (simp add: digit_char_props)
  qed
qed

lemma toString_nonempty: "toString n \<noteq> []"
  by (subst toString.simps) simp

lemma toString_value: "foldl (\<lambda>acc c. acc * 10 + digit_val c) 0 (toString n) = n"
proof (induction n rule: toString.induct)
  case (1 n)
  show ?case
  proof (cases "n < 10")
    case True
    then show ?thesis by (subst toString.simps) (simp add: digit_char_props)
  next
    case False
    with "1.IH" show ?thesis
      by (subst toString.simps) (simp add: digit_char_props)
  qed
qed

lemma parseInt_toString: "parseInt (toString n) = Num n"
proof -
  have "takeWhile is_digit (toString n) = toString n"
    using toString_all_digits[of n] by (simp add: list_all_iff takeWhile_eq_all_conv)
  moreover obtain c cs where "toString n = c # cs"
    using toString_nonempty[of n] by (cases "toString n") auto
  ultimately show ?thesis
    using toString_value[of n] by (simp add: parseInt_def)
qed

lemma toString_inject: "toString m = toString n \<longleftrightarrow> m = n"
proof
  assume "toString m = toString n"
  then have "parseInt (toString m) = parseInt (toString n)" by (rule arg_cong)
  then show "m = n" by (simp only: parseInt_toString jsnum.inject)
qed (rule arg_cong)

lemma port_of_key_toString: "port_of_key (toString idx) = Num (1200 + idx)"
  by (simp add: port_of_key_def parseInt_toString basePort_def)

section \<open>The loop that starts the bundlers\<close>

lemma say_fields [simp]:
  "notified (say l m r) = notified r" "captured (say l m r) = captured r"
  "listening (say l m r) = listening r" "state_folders (say l m r) = state_folders r"
  "state_bundlers (say l m r) = state_bundlers r" "bundlers (say l m r) = bundlers r"
  "dist (say l m r) = dist r" "cur_fill (say l m r) = cur_fill r" "timers (say l m r) = timers r"
  "schema_checks (say l m r) = schema_checks r" "fill_loads (say l m r) = fill_loads r"
  "watching_schema (say l m r) = watching_schema r"
  "watching_config (say l m r) = watching_config r"
  "printed (say l m r) = printed r @ [(l, m)]"
  by (simp_all add: say_def)

lemma notify_fields [simp]:
  "printed (notify m r) = printed r" "captured (notify m r) = captured r"
  "listening (notify m r) = listening r" "state_folders (notify m r) = state_folders r"
  "state_bundlers (notify m r) = state_bundlers r" "bundlers (notify m r) = bundlers r"
  "dist (notify m r) = dist r" "cur_fill (notify m r) = cur_fill r"
  "timers (notify m r) = timers r"
  "schema_checks (notify m r) = schema_checks r" "fill_loads (notify m r) = fill_loads r"
  "watching_schema (notify m r) = watching_schema r"
  "watching_config (notify m r) = watching_config r"
  "notified (notify m r) = notified r @ [m]"
  by (simp_all add: notify_def)

lemma check_ports_fields:
  "bundlers (effects (check_ports check ps r)) = bundlers r"
  "state_bundlers (effects (check_ports check ps r)) = state_bundlers r"
  "captured (effects (check_ports check ps r)) = captured r"
  "listening (effects (check_ports check ps r)) = listening r"
  "dist (effects (check_ports check ps r)) = dist r"
  "timers (effects (check_ports check ps r)) = timers r"
  by (induction ps arbitrary: r; simp split: probe.splits)+

lemma start_target_state:
  "state_bundlers (start_target e idx dir r) =
     (state_bundlers r)(toString idx \<mapsto>
        (case attempt e idx of
           Serves \<Rightarrow> \<lparr>st_folder = Some dir, st_port = Some (Num (1200 + idx)), st_error = Some False\<rparr>
         | Throws err \<Rightarrow> \<lparr>st_folder = Some dir, st_port = None, st_error = Some False\<rparr>))"
  by (simp add: start_target_def Let_def port_of_key_toString split: attempt.splits)

lemma start_target_bundlers:
  "bundlers (start_target e idx dir r) =
     bundlers r @
       (case attempt e idx of
          Serves \<Rightarrow> [\<lparr>b_folder = dir, b_port = Num (1200 + idx), isFirstBundle = True,
                       bundle_calls = 0\<rparr>]
        | Throws err \<Rightarrow> [])"
  by (simp add: start_target_def Let_def port_of_key_toString split: attempt.splits)

lemma start_target_captured:
  "captured (start_target e idx dir r) =
     captured r @ (case attempt e idx of Serves \<Rightarrow> [] | Throws err \<Rightarrow> [err])"
  by (simp add: start_target_def Let_def split: attempt.splits)

lemma start_all_listening: "listening (start_all e idx ds r) = listening r"
  by (induction ds arbitrary: idx r) (simp_all add: start_target_def Let_def split: attempt.splits)

lemma start_all_watch_fields:
  "timers (start_all e idx ds r) = timers r"
  "schema_checks (start_all e idx ds r) = schema_checks r"
  "fill_loads (start_all e idx ds r) = fill_loads r"
  by (induction ds arbitrary: idx r;
      simp add: start_target_def Let_def split: attempt.splits)+

lemma check_ports_watch_fields:
  "schema_checks (effects (check_ports check ps r)) = schema_checks r"
  "fill_loads (effects (check_ports check ps r)) = fill_loads r"
  by (induction ps arbitrary: r; simp split: probe.splits)+

lemma start_all_untouched:
  assumes "\<And>j. j < length ds \<Longrightarrow> key \<noteq> toString (idx + j)"
  shows "state_bundlers (start_all e idx ds r) key = state_bundlers r key"
  using assms
proof (induction ds arbitrary: idx r)
  case Nil
  then show ?case by simp
next
  case (Cons d ds)
  have "state_bundlers (start_all e (Suc idx) ds (start_target e idx d r)) key
      = state_bundlers (start_target e idx d r) key"
  proof (rule Cons.IH)
    fix j assume "j < length ds"
    then show "key \<noteq> toString (Suc idx + j)" using Cons.prems[of "Suc j"] by simp
  qed
  moreover have "key \<noteq> toString idx" using Cons.prems[of 0] by simp
  ultimately show ?case by (simp add: start_target_state)
qed

lemma start_all_entry:
  assumes "j < length ds"
  shows "state_bundlers (start_all e idx ds r) (toString (idx + j)) =
     Some (case attempt e (idx + j) of
        Serves \<Rightarrow> \<lparr>st_folder = Some (ds ! j), st_port = Some (Num (1200 + (idx + j))),
                    st_error = Some False\<rparr>
      | Throws err \<Rightarrow> \<lparr>st_folder = Some (ds ! j), st_port = None, st_error = Some False\<rparr>)"
  using assms
proof (induction ds arbitrary: idx r j)
  case Nil
  then show ?case by simp
next
  case (Cons d ds)
  show ?case
  proof (cases j)
    case 0
    have "state_bundlers (start_all e (Suc idx) ds (start_target e idx d r)) (toString idx)
        = state_bundlers (start_target e idx d r) (toString idx)"
      by (rule start_all_untouched) (simp add: toString_inject)
    then show ?thesis unfolding 0 by (simp add: start_target_state split: attempt.splits)
  next
    case (Suc j')
    with Cons.prems have "j' < length ds" by simp
    from Cons.IH[OF this, of "Suc idx" "start_target e idx d r"] show ?thesis
      unfolding Suc by (simp split: attempt.splits)
  qed
qed

lemma start_all_cong:
  assumes "state_bundlers r key = state_bundlers r' key"
    and "\<And>i. toString i = key \<Longrightarrow> attempt e i = attempt e' i"
  shows "state_bundlers (start_all e idx ds r) key = state_bundlers (start_all e' idx ds r') key"
  using assms(1)
proof (induction ds arbitrary: idx r r')
  case Nil
  then show ?case by simp
next
  case (Cons d ds)
  have "state_bundlers (start_target e idx d r) key = state_bundlers (start_target e' idx d r') key"
    using Cons.prems assms(2)[of idx] by (auto simp: start_target_state)
  from Cons.IH[OF this] show ?case by simp
qed

lemma start_all_bundlers:
  "bundlers (start_all e idx ds r) =
     bundlers r @
       map (\<lambda>(j, d). \<lparr>b_folder = d, b_port = Num (1200 + j), isFirstBundle = True, bundle_calls = 0\<rparr>)
         (filter (\<lambda>(j, d). attempt e j = Serves) (zip [idx..<idx + length ds] ds))"
proof (induction ds arbitrary: idx r)
  case Nil
  then show ?case by simp
next
  case (Cons d ds)
  have "[idx..<idx + length (d # ds)] = idx # [Suc idx..<Suc idx + length ds]"
    by (subst upt_rec) simp
  with Cons.IH[of "Suc idx" "start_target e idx d r"] show ?case
    by (simp add: start_target_bundlers split: attempt.splits)
qed

lemma start_all_captured:
  "set (captured (start_all e idx ds r)) =
     set (captured r) \<union> {err. \<exists>j < length ds. attempt e (idx + j) = Throws err}"
proof (induction ds arbitrary: idx r)
  case Nil
  then show ?case by simp
next
  case (Cons d ds)
  have "{err. \<exists>j < length (d # ds). attempt e (idx + j) = Throws err}
      = {err. attempt e idx = Throws err} \<union> {err. \<exists>j < length ds. attempt e (Suc idx + j) = Throws err}"
    (is "?L = ?A \<union> ?B")
  proof (intro set_eqI iffI)
    fix err assume "err \<in> ?L"
    then obtain j where j: "j < length (d # ds)" "attempt e (idx + j) = Throws err" by blast
    then show "err \<in> ?A \<union> ?B" by (cases j) auto
  next
    fix err assume "err \<in> ?A \<union> ?B"
    then show "err \<in> ?L"
    proof
      assume "err \<in> ?A"
      then show ?thesis by (auto intro: exI[of _ 0])
    next
      assume "err \<in> ?B"
      then obtain j where "j < length ds" "attempt e (Suc idx + j) = Throws err" by blast
      then show ?thesis by (auto intro: exI[of _ "Suc j"])
    qed
  qed
  with Cons.IH[of "Suc idx" "start_target e idx d r"] show ?case
    by (auto simp: start_target_captured split: attempt.splits)
qed

section \<open>The guards of the command\<close>

lemma check_ports_two:
  "check_ports check portsToCheck r =
     (case check 1200 of
        Resolved a \<Rightarrow>
          if a then Exit None (notify (port_taken_msg 1200) (say Error (port_taken_msg 1200) r))
          else (case check 1400 of
                  Resolved b \<Rightarrow>
                    if b then Exit None (notify (port_taken_msg 1400) (say Error (port_taken_msg 1400) r))
                    else Next r
                | Rejected m \<Rightarrow> Next (say Log m (say Log (port_skip_msg 1400) r)))
      | Rejected m \<Rightarrow>
          (case check 1400 of
             Resolved b \<Rightarrow>
               if b then Exit None (notify (port_taken_msg 1400) (say Error (port_taken_msg 1400)
                          (say Log m (say Log (port_skip_msg 1200) r))))
               else Next (say Log m (say Log (port_skip_msg 1200) r))
           | Rejected m' \<Rightarrow>
               Next (say Log m' (say Log (port_skip_msg 1400)
                      (say Log m (say Log (port_skip_msg 1200) r))))))"
  by (simp add: portsToCheck_def basePort_def split: probe.splits)

lemma check_ports_goes_on:
  "goes_on (check_ports check portsToCheck r) \<longleftrightarrow>
     check 1200 \<noteq> Resolved True \<and> check 1400 \<noteq> Resolved True"
  by (auto simp: check_ports_two split: probe.splits if_splits)

lemma check_ports_stops:
  "\<not> goes_on (check_ports check portsToCheck r) \<Longrightarrow>
     \<exists>r'. check_ports check portsToCheck r = Exit None r' \<and> listening r' = listening r
       \<and> bundlers r' = bundlers r \<and> state_bundlers r' = state_bundlers r"
  by (auto simp: check_ports_two split: probe.splits if_splits)

lemma start_bundlers_goes_on:
  "goes_on (start_bundlers e r) \<longleftrightarrow> found e \<noteq> [] \<and> picked e \<noteq> []"
  by (simp add: start_bundlers_def Let_def)

lemma start_bundlers_effects:
  assumes "found e \<noteq> []" and "picked e \<noteq> []"
  shows "state_bundlers (effects (start_bundlers e r))
      = state_bundlers (start_all e 0 (picked e)
          ((say Log (''Running bundlers for sizes: '' @ join_comma (picked e))
             ((say Log (''Bundling '' @ toString (length (found e)) @ '' sizes'') r)
                \<lparr>state_folders := found e\<rparr>))\<lparr>state_bundlers := Map.empty\<rparr>))"
    and "bundlers (effects (start_bundlers e r))
      = bundlers (start_all e 0 (picked e)
          ((say Log (''Running bundlers for sizes: '' @ join_comma (picked e))
             ((say Log (''Bundling '' @ toString (length (found e)) @ '' sizes'') r)
                \<lparr>state_folders := found e\<rparr>))\<lparr>state_bundlers := Map.empty\<rparr>))"
    and "captured (effects (start_bundlers e r))
      = captured (start_all e 0 (picked e)
          ((say Log (''Running bundlers for sizes: '' @ join_comma (picked e))
             ((say Log (''Bundling '' @ toString (length (found e)) @ '' sizes'') r)
                \<lparr>state_folders := found e\<rparr>))\<lparr>state_bundlers := Map.empty\<rparr>))"
  using assms by (simp_all add: start_bundlers_def Let_def)

lemma start_bundlers_stops:
  assumes "found e = [] \<or> picked e = []"
  shows "\<exists>r'. start_bundlers e r = Exit None r' \<and> bundlers r' = bundlers r
    \<and> state_bundlers r' = state_bundlers r
    \<and> (if found e = [] then (Error, no_sizes_msg) else (Error, none_picked_msg)) \<in> set (printed r')"
  using assms by (auto simp: start_bundlers_def Let_def)

lemma run0_fields:
  "bundlers run0 = []" "state_bundlers run0 = Map.empty" "captured run0 = []"
  "listening run0 = False"
  by (simp_all add: run0_def)

lemma check_config_file_fields:
  "bundlers (effects (check_config_file e r)) = bundlers r"
  "state_bundlers (effects (check_config_file e r)) = state_bundlers r"
  "captured (effects (check_config_file e r)) = captured r"
  "listening (effects (check_config_file e r)) = listening r"
  by (simp_all add: check_config_file_def split: sum.splits prod.splits)

lemma check_config_file_goes_on:
  "goes_on (check_config_file e r) \<longleftrightarrow> (\<exists>out. checkConfig (configFile e) = Inr (True, out))"
  by (auto simp: check_config_file_def split: sum.splits prod.splits)

text \<open>The run before the loop over the picked sizes.\<close>

lemma handle_goes_on:
  "goes_on (handle e) \<longleftrightarrow>
     portInUse e 1200 \<noteq> Resolved True \<and> portInUse e 1400 \<noteq> Resolved True
     \<and> (\<exists>out. checkConfig (configFile e) = Inr (True, out))
     \<and> found e \<noteq> [] \<and> picked e \<noteq> []"
proof -
  have a: "goes_on (and_then x f) \<longleftrightarrow> goes_on x \<and> goes_on (f (effects x))"
    for x :: "run flow" and f
    by (cases x) simp_all
  show ?thesis
    unfolding handle_def a check_ports_goes_on check_config_file_goes_on start_bundlers_goes_on
    by simp
qed

lemma handle_started:
  assumes "goes_on (handle e)"
  obtains r0 where "state_bundlers r0 = Map.empty" "bundlers r0 = []" "captured r0 = []"
    and "state_bundlers (effects (handle e)) = state_bundlers (start_all e 0 (picked e) r0)"
    and "bundlers (effects (handle e)) = bundlers (start_all e 0 (picked e) r0)"
    and "captured (effects (handle e)) = captured (start_all e 0 (picked e) r0)"
proof -
  from assms have g: "portInUse e 1200 \<noteq> Resolved True" "portInUse e 1400 \<noteq> Resolved True"
    "\<exists>out. checkConfig (configFile e) = Inr (True, out)" "found e \<noteq> []" "picked e \<noteq> []"
    by (simp_all add: handle_goes_on)
  from g(1,2) obtain r1 where r1: "check_ports (portInUse e) portsToCheck run0 = Next r1"
    using check_ports_goes_on[of "portInUse e" run0]
    by (cases "check_ports (portInUse e) portsToCheck run0") auto
  define r1' where "r1' = (say Log (''Building '' @ visual e) r1)\<lparr>listening := True\<rparr>"
  from g(3) obtain r2 where r2: "check_config_file e r1' = Next r2"
    using check_config_file_goes_on[of e r1']
    by (cases "check_config_file e r1'") auto
  have h: "handle e = start_bundlers e r2"
    by (simp only: handle_def r1 and_then.simps r1'_def[symmetric] r2)
  have f1: "bundlers r1 = []" "state_bundlers r1 = Map.empty" "captured r1 = []"
    using check_ports_fields(1,2,3)[of "portInUse e" portsToCheck run0]
    by (simp_all add: r1 run0_fields)
  have f1': "bundlers r1' = []" "state_bundlers r1' = Map.empty" "captured r1' = []"
    using f1 by (simp_all add: r1'_def)
  have f2: "bundlers r2 = []" "state_bundlers r2 = Map.empty" "captured r2 = []"
    using check_config_file_fields(1,2,3)[of e r1'] f1' by (simp_all add: r2)
  define r0 where "r0 = (say Log (''Running bundlers for sizes: '' @ join_comma (picked e))
             ((say Log (''Bundling '' @ toString (length (found e)) @ '' sizes'') r2)
                \<lparr>state_folders := found e\<rparr>))\<lparr>state_bundlers := Map.empty\<rparr>"
  show thesis
  proof (rule that[of r0])
    show "state_bundlers r0 = Map.empty" "bundlers r0 = []" "captured r0 = []"
      using f2 by (simp_all add: r0_def)
    show "state_bundlers (effects (handle e)) = state_bundlers (start_all e 0 (picked e) r0)"
      "bundlers (effects (handle e)) = bundlers (start_all e 0 (picked e) r0)"
      "captured (effects (handle e)) = captured (start_all e 0 (picked e) r0)"
      unfolding h r0_def using start_bundlers_effects[OF g(4,5), of r2] by simp_all
  qed
qed

lemma handle_stopped:
  assumes "\<not> goes_on (handle e)"
  shows "bundlers (effects (handle e)) = []" and "state_bundlers (effects (handle e)) = Map.empty"
proof -
  have "bundlers (effects (handle e)) = [] \<and> state_bundlers (effects (handle e)) = Map.empty"
  proof (cases "check_ports (portInUse e) portsToCheck run0")
    case (Next r1)
    define r1' where "r1' = (say Log (''Building '' @ visual e) r1)\<lparr>listening := True\<rparr>"
    have f1: "bundlers r1' = []" "state_bundlers r1' = Map.empty"
      using check_ports_fields(1,2)[of "portInUse e" portsToCheck run0]
      by (simp_all add: Next run0_fields r1'_def)
    show ?thesis
    proof (cases "check_config_file e r1'")
      case n2: (Next r2)
      have f2: "bundlers r2 = []" "state_bundlers r2 = Map.empty"
        using check_config_file_fields(1,2)[of e r1'] f1 by (simp_all add: n2)
      have h: "handle e = start_bundlers e r2"
        by (simp only: handle_def Next and_then.simps r1'_def[symmetric] n2)
      with assms have "found e = [] \<or> picked e = []"
        by (auto simp: start_bundlers_goes_on)
      from start_bundlers_stops[OF this, of r2] f2 h show ?thesis by auto
    next
      case (Exit code r2)
      have "handle e = Exit code r2"
        by (simp only: handle_def Next and_then.simps r1'_def[symmetric] Exit)
      then show ?thesis
        using check_config_file_fields(1,2)[of e r1'] f1 by (simp add: Exit)
    next
      case (Throw err r2)
      have "handle e = Throw err r2"
        by (simp only: handle_def Next and_then.simps r1'_def[symmetric] Throw)
      then show ?thesis
        using check_config_file_fields(1,2)[of e r1'] f1 by (simp add: Throw)
    qed
  next
    case (Exit code r1)
    then show ?thesis
      using check_ports_fields(1,2)[of "portInUse e" portsToCheck run0]
      by (simp add: handle_def run0_fields)
  next
    case (Throw err r1)
    then show ?thesis
      using check_ports_fields(1,2)[of "portInUse e" portsToCheck run0]
      by (simp add: handle_def run0_fields)
  qed
  then show "bundlers (effects (handle e)) = []"
    and "state_bundlers (effects (handle e)) = Map.empty" by simp_all
qed

section \<open>Properties of the command\<close>

lemma two_sizes_goes_on: "goes_on (handle two_sizes)"
  by (simp add: handle_goes_on two_sizes_def checkConfig_def formats_def)

lemma toString_small: "toString 0 = ''0''" "toString 1 = ''1''" "toString (Suc 0) = ''1''"
  by code_simp+

lemma ports_started:
  assumes "goes_on (handle e)" and "i < length (picked e)" and s: "attempt e i = Serves"
  shows "\<lparr>b_folder = picked e ! i, b_port = Num (basePort + i), isFirstBundle = True,
             bundle_calls = 0\<rparr> \<in> set (bundlers (effects (handle e)))"
proof -
  from assms(1) obtain r0 where r0: "bundlers r0 = []"
    and bs: "bundlers (effects (handle e)) = bundlers (start_all e 0 (picked e) r0)"
    by (rule handle_started)
  let ?mk = "\<lambda>(j, d). \<lparr>b_folder = d, b_port = Num (1200 + j), isFirstBundle = True, bundle_calls = 0\<rparr>"
  let ?ok = "\<lambda>(j, d). attempt e j = Serves"
  let ?zs = "zip [0..<length (picked e)] (picked e)"
  have bl: "bundlers (effects (handle e)) = map ?mk (filter ?ok ?zs)"
    using start_all_bundlers[of e 0 "picked e" r0] by (simp add: bs r0)
  have "(i, picked e ! i) \<in> set ?zs"
    using assms(2) by (auto simp: set_zip intro!: exI[of _ i])
  with s have "(i, picked e ! i) \<in> set (filter ?ok ?zs)" by simp
  then have "?mk (i, picked e ! i) \<in> ?mk ` set (filter ?ok ?zs)" by (rule imageI)
  then show ?thesis by (simp add: bl basePort_def)
qed

text \<open>
  Claim C2. The port of the target with index \<open>i\<close> is the base port 1200 plus \<open>i\<close>: that
  is what \<^verbatim>\<open>parseInt(basePort) + parseInt(i)\<close> gives, what a target that serves has in its
  record of the session and in its bundler, and the ports of different targets differ.
\<close>

theorem ports_by_index:
  assumes "goes_on (handle e)" and "i < length (picked e)"
  shows "basePort = 1200 \<and> port_of_key (toString i) = Num (basePort + i)
    \<and> (attempt e i = Serves \<longrightarrow>
         state_bundlers (effects (handle e)) (toString i)
           = Some \<lparr>st_folder = Some (picked e ! i), st_port = Some (Num (basePort + i)),
                   st_error = Some False\<rparr>
         \<and> \<lparr>b_folder = picked e ! i, b_port = Num (basePort + i), isFirstBundle = True,
             bundle_calls = 0\<rparr> \<in> set (bundlers (effects (handle e))))
    \<and> (\<forall>j < length (picked e). j \<noteq> i \<longrightarrow> port_of_key (toString j) \<noteq> port_of_key (toString i))
    \<and> distinct (map b_port (bundlers (effects (handle e))))"
proof -
  from assms(1) obtain r0 where r0: "state_bundlers r0 = Map.empty" "bundlers r0 = []"
    and st: "state_bundlers (effects (handle e)) = state_bundlers (start_all e 0 (picked e) r0)"
    and bs: "bundlers (effects (handle e)) = bundlers (start_all e 0 (picked e) r0)"
    by (rule handle_started)
  let ?mk = "\<lambda>(j, d). \<lparr>b_folder = d, b_port = Num (1200 + j), isFirstBundle = True, bundle_calls = 0\<rparr>"
  let ?ok = "\<lambda>(j, d). attempt e j = Serves"
  let ?zs = "zip [0..<length (picked e)] (picked e)"
  have bl: "bundlers (effects (handle e)) = map ?mk (filter ?ok ?zs)"
    using start_all_bundlers[of e 0 "picked e" r0] by (simp add: bs r0)
  have served: "state_bundlers (effects (handle e)) (toString i)
           = Some \<lparr>st_folder = Some (picked e ! i), st_port = Some (Num (basePort + i)),
                   st_error = Some False\<rparr>
         \<and> \<lparr>b_folder = picked e ! i, b_port = Num (basePort + i), isFirstBundle = True,
             bundle_calls = 0\<rparr> \<in> set (bundlers (effects (handle e)))"
    if s: "attempt e i = Serves"
  proof
    from start_all_entry[OF assms(2), of e 0 r0] s
    show "state_bundlers (effects (handle e)) (toString i)
           = Some \<lparr>st_folder = Some (picked e ! i), st_port = Some (Num (basePort + i)),
                   st_error = Some False\<rparr>"
      by (simp add: st basePort_def)
    have "(i, picked e ! i) \<in> set ?zs"
      using assms(2) by (auto simp: set_zip intro!: exI[of _ i])
    with s have "(i, picked e ! i) \<in> set (filter ?ok ?zs)" by simp
    then have "?mk (i, picked e ! i) \<in> ?mk ` set (filter ?ok ?zs)" by (rule imageI)
    then show "\<lparr>b_folder = picked e ! i, b_port = Num (basePort + i), isFirstBundle = True,
             bundle_calls = 0\<rparr> \<in> set (bundlers (effects (handle e)))"
      by (simp add: bl basePort_def)
  qed
  have "distinct (map fst (filter ?ok ?zs))"
    by (rule distinct_map_filter) simp
  then have "distinct (map (\<lambda>j. Num (1200 + j)) (map fst (filter ?ok ?zs)))"
    by (simp add: distinct_map inj_on_def)
  moreover have "map b_port (map ?mk (filter ?ok ?zs)) = map (\<lambda>j. Num (1200 + j)) (map fst (filter ?ok ?zs))"
    by (simp add: comp_def case_prod_beta)
  ultimately have "distinct (map b_port (bundlers (effects (handle e))))"
    by (simp only: bl)
  with served show ?thesis
    by (simp add: port_of_key_toString basePort_def)
qed

theorem ports_by_index_witness:
  "goes_on (handle two_sizes) \<and> (1::nat) < length (picked two_sizes)
   \<and> port_of_key (toString 1) = Num 1201
   \<and> state_bundlers (effects (handle two_sizes)) ''1''
       = Some \<lparr>st_folder = Some ''728x90'', st_port = Some (Num 1201), st_error = Some False\<rparr>
   \<and> port_of_key (toString 0) \<noteq> port_of_key (toString 1)"
proof -
  have l: "(1::nat) < length (picked two_sizes)" by (simp add: two_sizes_def)
  have s: "attempt two_sizes 1 = Serves" "picked two_sizes ! 1 = ''728x90''"
    by (simp_all add: two_sizes_def)
  note t = ports_by_index[OF two_sizes_goes_on l]
  from t have a: "port_of_key (toString 1) = Num 1201" by (simp add: basePort_def)
  from t s have b: "state_bundlers (effects (handle two_sizes)) ''1''
       = Some \<lparr>st_folder = Some ''728x90'', st_port = Some (Num 1201), st_error = Some False\<rparr>"
    by (simp add: toString_small basePort_def)
  from t have "\<forall>j < length (picked two_sizes). j \<noteq> 1 \<longrightarrow>
      port_of_key (toString j) \<noteq> port_of_key (toString 1)"
    by (elim conjE)
  from this[rule_format, of 0] have c: "port_of_key (toString 0) \<noteq> port_of_key (toString 1)"
    by (simp add: two_sizes_def)
  from two_sizes_goes_on l a b c show ?thesis by (intro conjI)
qed

text \<open>
  Claim C4, on the code. The first target of the example run fails to start; the
  \<^verbatim>\<open>catch\<close> block stores \<^verbatim>\<open>error = false\<close> in its record, the value of the success
  path (the second target), where the claim has \<^verbatim>\<open>true\<close>.
\<close>

theorem failed_start_error_flag:
  "attempt two_sizes 0 = Throws ''EADDRINUSE''
   \<and> state_bundlers (effects (handle two_sizes)) ''0''
       = Some \<lparr>st_folder = Some ''300x300'', st_port = None, st_error = Some False\<rparr>
   \<and> attempt two_sizes 1 = Serves
   \<and> state_bundlers (effects (handle two_sizes)) ''1''
       = Some \<lparr>st_folder = Some ''728x90'', st_port = Some (Num 1201), st_error = Some False\<rparr>"
proof -
  from two_sizes_goes_on obtain r0
    where st: "state_bundlers (effects (handle two_sizes))
      = state_bundlers (start_all two_sizes 0 (picked two_sizes) r0)"
    by (rule handle_started)
  have l: "0 < length (picked two_sizes)" "1 < length (picked two_sizes)"
    by (simp_all add: two_sizes_def)
  have a: "attempt two_sizes 0 = Throws ''EADDRINUSE''" "attempt two_sizes 1 = Serves"
    "picked two_sizes ! 0 = ''300x300''" "picked two_sizes ! 1 = ''728x90''"
    by (simp_all add: two_sizes_def)
  from start_all_entry[OF l(1), of two_sizes 0 r0] start_all_entry[OF l(2), of two_sizes 0 r0] a
  show ?thesis by (simp add: st toString_small)
qed

text \<open>
  Claim C5. When starting the target \<open>k\<close> throws, the exception is caught in the
  iteration of \<open>k\<close> and sent to Sentry; the run is not aborted, whatever the starts do
  (\<open>f\<close> is any other course of them); the records of the session under every other key
  are the same as when the start of \<open>k\<close> ends in any other way \<open>a\<close>; and the loop goes
  on: every picked target has its record, and every target that serves has its bundler.
\<close>

theorem start_failure_isolated:
  assumes "goes_on (handle e)" and "k < length (picked e)" and "attempt e k = Throws err"
  shows "err \<in> set (captured (effects (handle e)))
    \<and> goes_on (handle (e\<lparr>attempt := f\<rparr>))
    \<and> (\<forall>key. key \<noteq> toString k \<longrightarrow>
          state_bundlers (effects (handle (e\<lparr>attempt := (attempt e)(k := a)\<rparr>))) key
            = state_bundlers (effects (handle e)) key)
    \<and> (\<forall>j < length (picked e). state_bundlers (effects (handle e)) (toString j) \<noteq> None)
    \<and> (\<forall>j < length (picked e). attempt e j = Serves \<longrightarrow>
          \<lparr>b_folder = picked e ! j, b_port = Num (basePort + j), isFirstBundle = True,
            bundle_calls = 0\<rparr> \<in> set (bundlers (effects (handle e))))"
proof -
  define e' where "e' = e\<lparr>attempt := (attempt e)(k := a)\<rparr>"
  from assms(1) have g': "goes_on (handle e')" and gf: "goes_on (handle (e\<lparr>attempt := f\<rparr>))"
    by (simp_all add: handle_goes_on e'_def)
  from assms(1) obtain r0 where r0: "state_bundlers r0 = Map.empty" "captured r0 = []"
    and st: "state_bundlers (effects (handle e)) = state_bundlers (start_all e 0 (picked e) r0)"
    and ca: "captured (effects (handle e)) = captured (start_all e 0 (picked e) r0)"
    by (rule handle_started)
  from g' obtain r0' where r0': "state_bundlers r0' = Map.empty"
    and st': "state_bundlers (effects (handle e')) = state_bundlers (start_all e' 0 (picked e') r0')"
    by (rule handle_started)
  have "err \<in> set (captured (effects (handle e)))"
    using assms(2,3) by (auto simp: ca start_all_captured)
  moreover have "state_bundlers (effects (handle e')) key = state_bundlers (effects (handle e)) key"
    if "key \<noteq> toString k" for key
  proof -
    have "state_bundlers (start_all e' 0 (picked e) r0') key
        = state_bundlers (start_all e 0 (picked e) r0) key"
    proof (rule start_all_cong)
      show "state_bundlers r0' key = state_bundlers r0 key" by (simp add: r0 r0')
      fix i assume "toString i = key"
      with that have "i \<noteq> k" by auto
      then show "attempt e' i = attempt e i" by (simp add: e'_def)
    qed
    moreover have "picked e' = picked e" by (simp add: e'_def)
    ultimately show ?thesis by (simp add: st st')
  qed
  moreover have "state_bundlers (effects (handle e)) (toString j) \<noteq> None"
    if "j < length (picked e)" for j
    using start_all_entry[OF that, of e 0 r0] by (simp add: st)
  moreover have "\<lparr>b_folder = picked e ! j, b_port = Num (basePort + j), isFirstBundle = True,
            bundle_calls = 0\<rparr> \<in> set (bundlers (effects (handle e)))"
    if "j < length (picked e)" "attempt e j = Serves" for j
    using ports_started[OF assms(1) that] .
  ultimately show ?thesis using gf unfolding e'_def by blast
qed

theorem start_failure_isolated_witness:
  "goes_on (handle two_sizes) \<and> 0 < length (picked two_sizes)
   \<and> attempt two_sizes 0 = Throws ''EADDRINUSE''
   \<and> ''EADDRINUSE'' \<in> set (captured (effects (handle two_sizes)))
   \<and> goes_on (handle (two_sizes\<lparr>attempt := (\<lambda>i. Throws ''ENOSPC'')\<rparr>))
   \<and> state_bundlers (effects (handle (two_sizes\<lparr>attempt := (attempt two_sizes)(0 := Serves)\<rparr>))) ''1''
       = state_bundlers (effects (handle two_sizes)) ''1''"
proof -
  have l: "0 < length (picked two_sizes)" by (simp add: two_sizes_def)
  have a: "attempt two_sizes 0 = Throws ''EADDRINUSE''" by (simp add: two_sizes_def)
  note t = start_failure_isolated[OF two_sizes_goes_on l a, of "\<lambda>i. Throws ''ENOSPC''" Serves]
  note t1 = t[THEN conjunct1]
  note t2 = t[THEN conjunct2, THEN conjunct1]
  note t3 = t[THEN conjunct2, THEN conjunct2, THEN conjunct1]
  have "''1'' \<noteq> toString 0" by (simp add: toString_small)
  with t3 have c: "state_bundlers (effects (handle (two_sizes\<lparr>attempt := (attempt two_sizes)(0 := Serves)\<rparr>))) ''1''
       = state_bundlers (effects (handle two_sizes)) ''1''" by blast
  from two_sizes_goes_on l a t1 t2 c show ?thesis by (intro conjI)
qed

text \<open>
  Claim C7. When no size folder is found, or none is picked at the prompt, the run does
  not go on: no bundler has been started and the session has no bundler record. When the
  ports are free and the configuration is valid, the process exits at that very guard,
  after the diagnostic on the console and the desktop notification.
\<close>

theorem no_targets_aborts:
  assumes "found e = [] \<or> picked e = []"
  shows "\<not> goes_on (handle e)
    \<and> bundlers (effects (handle e)) = []
    \<and> state_bundlers (effects (handle e)) = Map.empty
    \<and> (portInUse e 1200 \<noteq> Resolved True \<and> portInUse e 1400 \<noteq> Resolved True
         \<and> (\<exists>out. checkConfig (configFile e) = Inr (True, out))
       \<longrightarrow> (\<exists>r. handle e = Exit None r
              \<and> (Error, if found e = [] then no_sizes_msg else none_picked_msg) \<in> set (printed r)
              \<and> (if found e = [] then no_sizes_msg else none_picked_msg) \<in> set (notified r)))"
proof -
  from assms have n: "\<not> goes_on (handle e)" by (auto simp: handle_goes_on)
  have "\<exists>r. handle e = Exit None r
      \<and> (Error, if found e = [] then no_sizes_msg else none_picked_msg) \<in> set (printed r)
      \<and> (if found e = [] then no_sizes_msg else none_picked_msg) \<in> set (notified r)"
    if g: "portInUse e 1200 \<noteq> Resolved True" "portInUse e 1400 \<noteq> Resolved True"
      "\<exists>out. checkConfig (configFile e) = Inr (True, out)"
  proof -
    from g(1,2) obtain r1 where r1: "check_ports (portInUse e) portsToCheck run0 = Next r1"
      using check_ports_goes_on[of "portInUse e" run0]
      by (cases "check_ports (portInUse e) portsToCheck run0") auto
    define r1' where "r1' = (say Log (''Building '' @ visual e) r1)\<lparr>listening := True\<rparr>"
    from g(3) obtain r2 where r2: "check_config_file e r1' = Next r2"
      using check_config_file_goes_on[of e r1']
      by (cases "check_config_file e r1'") auto
    have h: "handle e = start_bundlers e r2"
      by (simp only: handle_def r1 and_then.simps r1'_def[symmetric] r2)
    from assms show ?thesis
      unfolding h by (auto simp: start_bundlers_def Let_def)
  qed
  with n handle_stopped[OF n] show ?thesis by blast
qed

theorem no_targets_aborts_witness:
  "(found (two_sizes\<lparr>picked := []\<rparr>) = [] \<or> picked (two_sizes\<lparr>picked := []\<rparr>) = [])
   \<and> \<not> goes_on (handle (two_sizes\<lparr>picked := []\<rparr>))
   \<and> bundlers (effects (handle (two_sizes\<lparr>picked := []\<rparr>))) = []
   \<and> state_bundlers (effects (handle (two_sizes\<lparr>picked := []\<rparr>))) = Map.empty"
proof -
  have a: "found (two_sizes\<lparr>picked := []\<rparr>) = [] \<or> picked (two_sizes\<lparr>picked := []\<rparr>) = []"
    by simp
  from no_targets_aborts[OF a] a show ?thesis by (elim conjE) (intro conjI; assumption)
qed

text \<open>
  Claim C8. The port check stops the run exactly when the probe of port 1200 or of port
  1400 answers that the port is in use, and then the process exits before the status
  server listens and before any bundler is started. A probe that fails is skipped with a
  line on the console, and when no probe finds its port in use the run goes on to start
  the status server.
\<close>

theorem port_check:
  "portsToCheck = [1200, 1400]
   \<and> (\<not> goes_on (check_ports check portsToCheck r)
        \<longleftrightarrow> check 1200 = Resolved True \<or> check 1400 = Resolved True)
   \<and> (\<not> goes_on (check_ports check portsToCheck r)
        \<longrightarrow> (\<exists>r'. check_ports check portsToCheck r = Exit None r'))
   \<and> (goes_on (check_ports check portsToCheck r)
        \<longrightarrow> (\<forall>p \<in> set portsToCheck. \<forall>m. check p = Rejected m
              \<longrightarrow> (Log, port_skip_msg p)
                    \<in> set (printed (effects (check_ports check portsToCheck r)))))
   \<and> (portInUse e 1200 = Resolved True \<or> portInUse e 1400 = Resolved True
        \<longrightarrow> (\<exists>r'. handle e = Exit None r' \<and> \<not> listening r' \<and> bundlers r' = []))
   \<and> (portInUse e 1200 \<noteq> Resolved True \<and> portInUse e 1400 \<noteq> Resolved True
        \<longrightarrow> listening (effects (handle e)))"
proof -
  have p: "portsToCheck = [1200, 1400]" by (simp add: portsToCheck_def basePort_def)
  have a: "\<not> goes_on (check_ports check portsToCheck r)
        \<longleftrightarrow> check 1200 = Resolved True \<or> check 1400 = Resolved True"
    by (simp add: check_ports_goes_on)
  have b: "\<exists>r'. check_ports check portsToCheck r = Exit None r'"
    if "\<not> goes_on (check_ports check portsToCheck r)"
    using check_ports_stops[OF that] by blast
  have c: "(Log, port_skip_msg p) \<in> set (printed (effects (check_ports check portsToCheck r)))"
    if "goes_on (check_ports check portsToCheck r)" "p \<in> set portsToCheck" "check p = Rejected m"
    for p m
    using that by (auto simp: p check_ports_two split: probe.splits if_splits)
  have d: "\<exists>r'. handle e = Exit None r' \<and> \<not> listening r' \<and> bundlers r' = []"
    if "portInUse e 1200 = Resolved True \<or> portInUse e 1400 = Resolved True"
  proof -
    from that have "\<not> goes_on (check_ports (portInUse e) portsToCheck run0)"
      by (simp add: check_ports_goes_on)
    from check_ports_stops[OF this] obtain r' where
      "check_ports (portInUse e) portsToCheck run0 = Exit None r'" "listening r' = listening run0"
      "bundlers r' = bundlers run0" by blast
    then show ?thesis by (simp add: handle_def run0_fields)
  qed
  have f: "listening (effects (handle e))"
    if g: "portInUse e 1200 \<noteq> Resolved True \<and> portInUse e 1400 \<noteq> Resolved True"
  proof -
    from g obtain r1 where r1: "check_ports (portInUse e) portsToCheck run0 = Next r1"
      using check_ports_goes_on[of "portInUse e" run0]
      by (cases "check_ports (portInUse e) portsToCheck run0") auto
    define r1' where "r1' = (say Log (''Building '' @ visual e) r1)\<lparr>listening := True\<rparr>"
    have h: "handle e = and_then (check_config_file e r1') (start_bundlers e)"
      by (simp only: handle_def r1 and_then.simps r1'_def[symmetric])
    have l1: "listening r1'" by (simp add: r1'_def)
    have l2: "listening (effects (start_bundlers e r2))" if "listening r2" for r2
      using that by (simp add: start_bundlers_def Let_def start_all_listening)
    show ?thesis
    proof (cases "check_config_file e r1'")
      case (Next r2)
      with check_config_file_fields(4)[of e r1'] l1 have "listening r2" by simp
      from l2[OF this] show ?thesis by (simp add: h Next)
    next
      case (Exit code r2)
      with check_config_file_fields(4)[of e r1'] l1 show ?thesis by (simp add: h)
    next
      case (Throw err r2)
      with check_config_file_fields(4)[of e r1'] l1 show ?thesis by (simp add: h)
    qed
  qed
  from p a b c d f show ?thesis by blast
qed

theorem port_check_witness:
  "(goes_on (check_ports (\<lambda>p. if p = 1200 then Rejected ''ETIMEDOUT'' else Resolved False)
       portsToCheck run0)
    \<and> 1200 \<in> set portsToCheck
    \<and> (Log, port_skip_msg 1200)
        \<in> set (printed (effects (check_ports
              (\<lambda>p. if p = 1200 then Rejected ''ETIMEDOUT'' else Resolved False)
              portsToCheck run0))))
   \<and> (\<not> goes_on (check_ports (\<lambda>p. if p = 1200 then Rejected ''ETIMEDOUT'' else Resolved True)
       portsToCheck run0))
   \<and> listening (effects (handle two_sizes))"
proof -
  let ?c = "\<lambda>p::nat. if p = 1200 then Rejected ''ETIMEDOUT'' else Resolved False"
  let ?d = "\<lambda>p::nat. if p = 1200 then Rejected ''ETIMEDOUT'' else Resolved True"
  note t = port_check[of ?c run0 two_sizes]
  note u = port_check[of ?d run0 two_sizes]
  note t1 = t[THEN conjunct1]
  note t2 = t[THEN conjunct2, THEN conjunct1]
  note t4 = t[THEN conjunct2, THEN conjunct2, THEN conjunct2, THEN conjunct1]
  note t6 = t[THEN conjunct2, THEN conjunct2, THEN conjunct2, THEN conjunct2, THEN conjunct2]
  note u2 = u[THEN conjunct2, THEN conjunct1]
  from t2 have g: "goes_on (check_ports ?c portsToCheck run0)" by simp
  have m: "1200 \<in> set portsToCheck" by (simp add: t1)
  have "?c 1200 = Rejected ''ETIMEDOUT''" by simp
  with t4 g m
  have w: "(Log, port_skip_msg 1200) \<in> set (printed (effects (check_ports ?c portsToCheck run0)))"
    by blast
  from u2 have n: "\<not> goes_on (check_ports ?d portsToCheck run0)" by simp
  have "portInUse two_sizes 1200 \<noteq> Resolved True \<and> portInUse two_sizes 1400 \<noteq> Resolved True"
    by (simp add: two_sizes_def)
  with t6 have l: "listening (effects (handle two_sizes))" by (rule mp)
  from g m w n l show ?thesis by (intro conjI)
qed

section \<open>Properties of the watchers\<close>

lemma cycles_refl: "cycles 0 r r"
  by (simp add: cycles_def)

lemma cycles_trans: "cycles n r r' \<Longrightarrow> cycles m r' r'' \<Longrightarrow> cycles (n + m) r r''"
  by (simp add: cycles_def comp_def add.assoc)

lemma timer_fired_cycles: "cycles 1 r (timer_fired f r)" "timers (timer_fired f r) = timers r"
  "watching_schema (timer_fired f r) = watching_schema r"
  by (simp_all add: cycles_def timer_fired_def comp_def)

lemma fold_timer_fired:
  "cycles (length ds) r (fold (\<lambda>due. timer_fired (getFill due)) ds r)
   \<and> timers (fold (\<lambda>due. timer_fired (getFill due)) ds r) = timers r
   \<and> watching_schema (fold (\<lambda>due. timer_fired (getFill due)) ds r) = watching_schema r"
proof (induction ds arbitrary: r)
  case Nil
  then show ?case by (simp add: cycles_refl)
next
  case (Cons d ds)
  from Cons.IH[of "timer_fired (getFill d) r"] timer_fired_cycles[where r=r and f="getFill d"]
  show ?case using cycles_trans[where n=1 and r=r and r'="timer_fired (getFill d) r" and m="length ds"] by simp
qed

lemma run_due_cycles:
  "cycles (length (filter (\<lambda>due. due \<le> t) (timers r))) r (run_due getFill t r)"
  "timers (run_due getFill t r) = filter (\<lambda>due. \<not> due \<le> t) (timers r)"
  "watching_schema (run_due getFill t r) = watching_schema r"
proof -
  define r0 where "r0 = r\<lparr>timers := filter (\<lambda>due. \<not> due \<le> t) (timers r)\<rparr>"
  have "cycles 0 r r0" by (simp add: cycles_def r0_def)
  from cycles_trans[OF this] fold_timer_fired[where ds="filter (\<lambda>due. due \<le> t) (timers r)" and r=r0 and getFill=getFill]
  show "cycles (length (filter (\<lambda>due. due \<le> t) (timers r))) r (run_due getFill t r)"
    by (simp add: run_due_def r0_def[symmetric])
  from fold_timer_fired[where ds="filter (\<lambda>due. due \<le> t) (timers r)" and r=r0 and getFill=getFill]
  show "timers (run_due getFill t r) = filter (\<lambda>due. \<not> due \<le> t) (timers r)"
    "watching_schema (run_due getFill t r) = watching_schema r"
    by (simp_all add: run_due_def r0_def[symmetric]) (simp_all add: r0_def)
qed

lemma schema_changed_cycles:
  "cycles 0 r (schema_changed t r)" "timers (schema_changed t r) = timers r @ [t + 200]"
  "watching_schema (schema_changed t r) = watching_schema r"
  by (simp_all add: cycles_def schema_changed_def say_def)

lemma simulate_schema_step:
  assumes "watching_schema r"
  shows "simulate getFill ((t, SchemaChange) # evs) r
    = simulate getFill evs (schema_changed t (run_due getFill t r))"
  using assms run_due_cycles(3)[where t=t and r=r and getFill=getFill] by simp

lemma filter_later:
  assumes "t \<le> (T::nat)"
  shows "filter (\<lambda>d. \<not> d \<le> T) (filter (\<lambda>d. \<not> d \<le> t) ds) = filter (\<lambda>d. \<not> d \<le> T) ds"
    and "length (filter (\<lambda>d. d \<le> t) ds) + length (filter (\<lambda>d. d \<le> T) (filter (\<lambda>d. \<not> d \<le> t) ds))
      = length (filter (\<lambda>d. d \<le> T) ds)"
  using assms by (induction ds) auto

lemma simulate_schema_changes:
  assumes "watching_schema r" and "\<forall>t \<in> set ts. t \<le> T"
  shows "\<exists>r'. simulate getFill (map (\<lambda>t. (t, SchemaChange)) ts) r = Next r'
    \<and> cycles (length (filter (\<lambda>d. d \<le> T) (timers r @ map (\<lambda>t. t + 200) ts))) r
         (run_due getFill T r')
    \<and> timers (run_due getFill T r')
         = filter (\<lambda>d. \<not> d \<le> T) (timers r @ map (\<lambda>t. t + 200) ts)"
  using assms
proof (induction ts arbitrary: r)
  case Nil
  show ?case
    using run_due_cycles(1,2)[where t=T and r=r and getFill=getFill] by simp
next
  case (Cons t ts)
  define r1 where "r1 = run_due getFill t r"
  define r2 where "r2 = schema_changed t r1"
  define k where "k = length (filter (\<lambda>due. due \<le> t) (timers r))"
  from Cons.prems(2) have tT: "t \<le> T" and rest: "\<forall>t \<in> set ts. t \<le> T" by simp_all
  have c1: "cycles k r r1" and t1: "timers r1 = filter (\<lambda>due. \<not> due \<le> t) (timers r)"
    and w1: "watching_schema r1"
    using run_due_cycles[where t=t and r=r and getFill=getFill] Cons.prems(1)
    by (simp_all add: r1_def k_def)
  have c2: "cycles 0 r1 r2" and t2: "timers r2 = timers r1 @ [t + 200]"
    and w2: "watching_schema r2"
    using schema_changed_cycles[where r=r1 and t=t] w1 by (simp_all add: r2_def)
  have step: "simulate getFill (map (\<lambda>t. (t, SchemaChange)) (t # ts)) r
      = simulate getFill (map (\<lambda>t. (t, SchemaChange)) ts) r2"
    using simulate_schema_step[OF Cons.prems(1), where getFill=getFill and t=t]
    by (simp add: r1_def r2_def)
  from Cons.IH[OF w2 rest] obtain r' where
    r': "simulate getFill (map (\<lambda>t. (t, SchemaChange)) ts) r2 = Next r'"
    and n: "cycles (length (filter (\<lambda>d. d \<le> T) (timers r2 @ map (\<lambda>t. t + 200) ts))) r2
         (run_due getFill T r')"
    and tm: "timers (run_due getFill T r')
         = filter (\<lambda>d. \<not> d \<le> T) (timers r2 @ map (\<lambda>t. t + 200) ts)"
    by blast
  have "timers r2 @ map (\<lambda>t. t + 200) ts
      = filter (\<lambda>due. \<not> due \<le> t) (timers r) @ map (\<lambda>t. t + 200) (t # ts)"
    by (simp add: t2 t1)
  note n' = n[unfolded this] and tm' = tm[unfolded this]
  have eq: "k + length (filter (\<lambda>d. d \<le> T)
          (filter (\<lambda>due. \<not> due \<le> t) (timers r) @ map (\<lambda>t. t + 200) (t # ts)))
      = length (filter (\<lambda>d. d \<le> T) (timers r @ map (\<lambda>t. t + 200) (t # ts)))"
    unfolding k_def filter_append length_append
    using filter_later(2)[OF tT, of "timers r"] by linarith
  from cycles_trans[OF cycles_trans[OF c1 c2] n']
  have "cycles (k + length (filter (\<lambda>d. d \<le> T)
          (filter (\<lambda>due. \<not> due \<le> t) (timers r) @ map (\<lambda>t. t + 200) (t # ts)))) r
         (run_due getFill T r')"
    by (simp only: add_0_right)
  then have "cycles (length (filter (\<lambda>d. d \<le> T) (timers r @ map (\<lambda>t. t + 200) (t # ts)))) r
         (run_due getFill T r')"
    by (simp only: eq)
  moreover have "timers (run_due getFill T r')
      = filter (\<lambda>d. \<not> d \<le> T) (timers r @ map (\<lambda>t. t + 200) (t # ts))"
    using tm' filter_later(1)[OF tT, of "timers r"] by simp
  ultimately show ?case unfolding step using r' by blast
qed

lemma schema_changes_upto:
  assumes "watching_schema r" and "timers r = []" and "\<forall>t \<in> set ts. t \<le> T"
  shows "goes_on (simulate getFill (map (\<lambda>t. (t, SchemaChange)) ts) r)"
    and "cycles (length (filter (\<lambda>t. t + 200 \<le> T) ts)) r
           (run_due getFill T (effects (simulate getFill (map (\<lambda>t. (t, SchemaChange)) ts) r)))"
    and "timers (run_due getFill T (effects (simulate getFill (map (\<lambda>t. (t, SchemaChange)) ts) r)))
           = map (\<lambda>t. t + 200) (filter (\<lambda>t. \<not> t + 200 \<le> T) ts)"
proof -
  from simulate_schema_changes[OF assms(1,3), where getFill=getFill] obtain r' where
    r': "simulate getFill (map (\<lambda>t. (t, SchemaChange)) ts) r = Next r'"
    and n: "cycles (length (filter (\<lambda>d. d \<le> T) (timers r @ map (\<lambda>t. t + 200) ts))) r
         (run_due getFill T r')"
    and tm: "timers (run_due getFill T r')
         = filter (\<lambda>d. \<not> d \<le> T) (timers r @ map (\<lambda>t. t + 200) ts)"
    by blast
  show "goes_on (simulate getFill (map (\<lambda>t. (t, SchemaChange)) ts) r)"
    by (simp add: r')
  from n show "cycles (length (filter (\<lambda>t. t + 200 \<le> T) ts)) r
           (run_due getFill T (effects (simulate getFill (map (\<lambda>t. (t, SchemaChange)) ts) r)))"
    by (simp add: r' assms(2) filter_map comp_def)
  from tm show "timers (run_due getFill T (effects (simulate getFill (map (\<lambda>t. (t, SchemaChange)) ts) r)))
           = map (\<lambda>t. t + 200) (filter (\<lambda>t. \<not> t + 200 \<le> T) ts)"
    by (simp add: r' assms(2) filter_map comp_def)
qed

lemma handle_watchers:
  assumes "goes_on (handle e)"
  shows "watching_schema (effects (handle e)) = schemaExists e"
    and "timers (effects (handle e)) = []"
    and "schema_checks (effects (handle e)) = 0"
    and "fill_loads (effects (handle e)) = 0"
    and "list_all (\<lambda>b. bundle_calls b = 0) (bundlers (effects (handle e)))"
    and "watching_config (effects (handle e))"
proof -
  from assms have g: "portInUse e 1200 \<noteq> Resolved True" "portInUse e 1400 \<noteq> Resolved True"
    "\<exists>out. checkConfig (configFile e) = Inr (True, out)" "found e \<noteq> []" "picked e \<noteq> []"
    by (simp_all add: handle_goes_on)
  from g(1,2) obtain r1 where r1: "check_ports (portInUse e) portsToCheck run0 = Next r1"
    using check_ports_goes_on[of "portInUse e" run0]
    by (cases "check_ports (portInUse e) portsToCheck run0") auto
  define r1' where "r1' = (say Log (''Building '' @ visual e) r1)\<lparr>listening := True\<rparr>"
  from g(3) obtain out where out: "checkConfig (configFile e) = Inr (True, out)" by blast
  define r2 where "r2 = r1'\<lparr>printed := printed r1' @ out, cur_fill := firstFill e\<rparr>"
  have c: "check_config_file e r1' = Next r2"
    by (simp add: check_config_file_def out r2_def)
  have h: "handle e = start_bundlers e r2"
    by (simp only: handle_def r1 and_then.simps r1'_def[symmetric] c)
  have f1: "timers r1 = []" "schema_checks r1 = 0" "fill_loads r1 = 0"
    using check_ports_fields(6)[of "portInUse e" portsToCheck run0]
      check_ports_watch_fields[of "portInUse e" portsToCheck run0]
    by (simp_all add: r1) (simp_all add: run0_def)
  then have f2: "timers r2 = []" "schema_checks r2 = 0" "fill_loads r2 = 0"
    by (simp_all add: r2_def r1'_def)
  from g(4,5) f2 show "watching_schema (effects (handle e)) = schemaExists e"
    "timers (effects (handle e)) = []" "schema_checks (effects (handle e)) = 0"
    "fill_loads (effects (handle e)) = 0"
    unfolding h by (simp_all add: start_bundlers_def Let_def start_all_watch_fields)
  from assms obtain r0 where "bundlers r0 = []"
    "bundlers (effects (handle e)) = bundlers (start_all e 0 (picked e) r0)"
    by (rule handle_started)
  then show "list_all (\<lambda>b. bundle_calls b = 0) (bundlers (effects (handle e)))"
    by (simp add: start_all_bundlers list_all_iff case_prod_beta)
  from g(4,5) show "watching_config (effects (handle e))"
    unfolding h by (simp add: start_bundlers_def Let_def)
qed

lemma cycles_bundle_calls:
  assumes "cycles n r r'" and "list_all (\<lambda>b. bundle_calls b = k) (bundlers r)"
  shows "list_all (\<lambda>b. bundle_calls b = k + n) (bundlers r')"
proof -
  have "bundle_calls b' = k + n" if "b' \<in> set (bundlers r')" for b'
  proof -
    from that have "bundle_calls b' \<in> set (map bundle_calls (bundlers r'))" by simp
    also from assms(1) have "map bundle_calls (bundlers r')
        = map (\<lambda>c. c + n) (map bundle_calls (bundlers r))"
      by (simp add: cycles_def)
    finally obtain b where "b \<in> set (bundlers r)" "bundle_calls b' = bundle_calls b + n"
      by auto
    with assms(2) show ?thesis by (simp add: list_all_iff)
  qed
  then show ?thesis by (simp add: list_all_iff)
qed

text \<open>
  Claim C6, as amended. The watcher of the schema file does not coalesce events: each
  change sets a timer of its own, 200 ms ahead, and none is cancelled. Take changes of the
  schema file at the times \<open>ts\<close>, none later than \<open>T\<close>, on a run that watches the schema
  and has no timer pending. At the time \<open>T\<close> exactly the changes that are 200 ms old or
  older have had their cycle (one check of the schema, one load of the fill, one call of
  \<^verbatim>\<open>bundle()\<close> on every bundler of the array, each), and the timers of the others are
  pending, due 200 ms after their change. At the time \<open>T + 200\<close> every one of the \<open>N\<close>
  changes has had its cycle, \<open>N\<close> cycles in all and not one, and no timer is pending.
\<close>

theorem schema_changes_each_rebuild:
  assumes "watching_schema r" and "timers r = []" and "\<forall>t \<in> set ts. t \<le> T"
  shows "goes_on (simulate getFill (map (\<lambda>t. (t, SchemaChange)) ts) r)
    \<and> cycles (length (filter (\<lambda>t. t + 200 \<le> T) ts)) r
         (run_due getFill T (effects (simulate getFill (map (\<lambda>t. (t, SchemaChange)) ts) r)))
    \<and> timers (run_due getFill T (effects (simulate getFill (map (\<lambda>t. (t, SchemaChange)) ts) r)))
         = map (\<lambda>t. t + 200) (filter (\<lambda>t. \<not> t + 200 \<le> T) ts)
    \<and> cycles (length ts) r
         (run_due getFill (T + 200)
            (effects (simulate getFill (map (\<lambda>t. (t, SchemaChange)) ts) r)))
    \<and> timers (run_due getFill (T + 200)
         (effects (simulate getFill (map (\<lambda>t. (t, SchemaChange)) ts) r))) = []"
proof -
  from assms(3) have later: "\<forall>t \<in> set ts. t \<le> T + 200" by auto
  from assms(3) have all: "filter (\<lambda>t. t + 200 \<le> T + 200) ts = ts"
    "filter (\<lambda>t. \<not> t + 200 \<le> T + 200) ts = []"
    by (simp_all add: filter_empty_conv)
  note at_T = schema_changes_upto[OF assms, where getFill=getFill]
  note late = schema_changes_upto(2,3)[OF assms(1,2) later, where getFill=getFill, unfolded all]
  from late(2) have "timers (run_due getFill (T + 200)
         (effects (simulate getFill (map (\<lambda>t. (t, SchemaChange)) ts) r))) = []"
    by simp
  with at_T late(1) show ?thesis by (intro conjI)
qed

theorem schema_changes_each_rebuild_witness:
  "watching_schema (effects (handle two_sizes)) \<and> timers (effects (handle two_sizes)) = []
   \<and> (0::nat) \<le> 5000 \<and> (50::nat) \<le> 5000 \<and> (4900::nat) \<le> 5000
   \<and> cycles 2 (effects (handle two_sizes))
        (run_due (\<lambda>t. ''{}'') 5000
           (effects (simulate (\<lambda>t. ''{}'')
              [(0, SchemaChange), (50, SchemaChange), (4900, SchemaChange)]
              (effects (handle two_sizes)))))
   \<and> timers (run_due (\<lambda>t. ''{}'') 5000
           (effects (simulate (\<lambda>t. ''{}'')
              [(0, SchemaChange), (50, SchemaChange), (4900, SchemaChange)]
              (effects (handle two_sizes))))) = [5100]
   \<and> cycles 3 (effects (handle two_sizes))
        (run_due (\<lambda>t. ''{}'') (5000 + 200)
           (effects (simulate (\<lambda>t. ''{}'')
              [(0, SchemaChange), (50, SchemaChange), (4900, SchemaChange)]
              (effects (handle two_sizes)))))"
proof -
  have w: "watching_schema (effects (handle two_sizes))"
    using handle_watchers(1)[OF two_sizes_goes_on] by (simp add: two_sizes_def)
  note t = handle_watchers(2)[OF two_sizes_goes_on]
  have a: "\<forall>t \<in> set [0, 50, 4900]. t \<le> (5000::nat)" by simp
  have n: "(0::nat) \<le> 5000" "(50::nat) \<le> 5000" "(4900::nat) \<le> 5000" by simp_all
  have m: "map (\<lambda>t. (t, SchemaChange)) [0::nat, 50, 4900]
      = [(0, SchemaChange), (50, SchemaChange), (4900, SchemaChange)]"
    and l: "length [0::nat, 50, 4900] = 3"
    and k: "length (filter (\<lambda>t. t + 200 \<le> 5000) [0::nat, 50, 4900]) = 2"
    and p: "map (\<lambda>t. t + 200) (filter (\<lambda>t. \<not> t + 200 \<le> 5000) [0::nat, 50, 4900]) = [5100]"
    by simp_all
  from schema_changes_each_rebuild[OF w t a, of "\<lambda>t. ''{}''", unfolded m l k p] w t n
  show ?thesis by (elim conjE) (intro conjI; assumption)
qed

text \<open>
  Two changes of the schema file 50 ms apart, well within 200 ms: the schema is checked
  twice and the fill loaded twice, and every bundler is rebuilt twice, not once.
\<close>

theorem schema_changes_counterexample:
  "schema_checks (run_due (\<lambda>t. ''{}'') 1000
      (effects (simulate (\<lambda>t. ''{}'') [(0, SchemaChange), (50, SchemaChange)]
         (effects (handle two_sizes))))) = 2
   \<and> fill_loads (run_due (\<lambda>t. ''{}'') 1000
      (effects (simulate (\<lambda>t. ''{}'') [(0, SchemaChange), (50, SchemaChange)]
         (effects (handle two_sizes))))) = 2
   \<and> list_all (\<lambda>b. bundle_calls b = 2) (bundlers (run_due (\<lambda>t. ''{}'') 1000
      (effects (simulate (\<lambda>t. ''{}'') [(0, SchemaChange), (50, SchemaChange)]
         (effects (handle two_sizes))))))
   \<and> bundlers (effects (handle two_sizes)) \<noteq> []"
proof -
  define r where "r = effects (handle two_sizes)"
  define r' where "r' = run_due (\<lambda>t. ''{}'') 1000
      (effects (simulate (\<lambda>t. ''{}'') [(0, SchemaChange), (50, SchemaChange)] r))"
  have m: "map (\<lambda>t. (t, SchemaChange)) [0::nat, 50] = [(0, SchemaChange), (50, SchemaChange)]"
    by simp
  have w: "watching_schema r"
    using handle_watchers(1)[OF two_sizes_goes_on] by (simp add: two_sizes_def r_def)
  note f = handle_watchers(2-5)[OF two_sizes_goes_on, folded r_def]
  have a: "\<forall>t \<in> set [0, 50]. t \<le> (1000::nat)" by simp
  have l: "length (filter (\<lambda>t. t + 200 \<le> 1000) [0::nat, 50]) = 2" by simp
  from schema_changes_upto(2)[OF w f(1) a, of "\<lambda>t. ''{}''", unfolded m l]
  have c: "cycles 2 r r'" unfolding r'_def .
  from c f have "schema_checks r' = 2" "fill_loads r' = 2"
    by (simp_all add: cycles_def)
  moreover from cycles_bundle_calls[OF c f(4)]
  have "list_all (\<lambda>b. bundle_calls b = 2) (bundlers r')" by (simp only: add_0)
  moreover have "bundlers r \<noteq> []"
    using ports_started[OF two_sizes_goes_on, of 1] by (auto simp: two_sizes_def r_def)
  ultimately show ?thesis unfolding r'_def r_def by (intro conjI)
qed

text \<open>
  Claim C9. When the watcher of the configuration file has been set up, a change of that
  file goes to its callback, which prints its line and then what \<^verbatim>\<open>checkConfig\<close> prints
  for the file as it is now, and does nothing else: the run is as before but for the
  console. So there is no \<^verbatim>\<open>bundle()\<close> call and no timer, and the bundlers, the records
  of the session, the built files and the fill are as before. This holds whatever the file
  holds; when it cannot be parsed, \<^verbatim>\<open>checkConfig\<close> throws after the callback's line and
  the exception leaves the callback, and otherwise the callback returns.
\<close>

theorem config_change_only_validates:
  assumes "watching_config r"
  shows "effects (deliver (ConfigChange cf) t r)
       = r\<lparr>printed := printed r @ (Log, ''Config changed, validating'')
             # (case checkConfig cf of Inl err \<Rightarrow> [] | Inr (configResult, out) \<Rightarrow> out)\<rparr>
   \<and> goes_on (deliver (ConfigChange cf) t r) = (cf \<noteq> Malformed)
   \<and> bundlers (effects (deliver (ConfigChange cf) t r)) = bundlers r
   \<and> state_bundlers (effects (deliver (ConfigChange cf) t r)) = state_bundlers r
   \<and> state_folders (effects (deliver (ConfigChange cf) t r)) = state_folders r
   \<and> dist (effects (deliver (ConfigChange cf) t r)) = dist r
   \<and> cur_fill (effects (deliver (ConfigChange cf) t r)) = cur_fill r
   \<and> timers (effects (deliver (ConfigChange cf) t r)) = timers r
   \<and> schema_checks (effects (deliver (ConfigChange cf) t r)) = schema_checks r
   \<and> fill_loads (effects (deliver (ConfigChange cf) t r)) = fill_loads r
   \<and> cycles 0 r (effects (deliver (ConfigChange cf) t r))"
proof -
  define out where
    "out = (case checkConfig cf of Inl err \<Rightarrow> [] | Inr (configResult, out) \<Rightarrow> out)"
  have e: "effects (deliver (ConfigChange cf) t r)
      = r\<lparr>printed := printed r @ (Log, ''Config changed, validating'') # out\<rparr>"
    using assms
    by (simp add: config_changed_def say_def out_def Let_def split: sum.splits prod.splits)
  have g: "goes_on (deliver (ConfigChange cf) t r) = (cf \<noteq> Malformed)"
    using assms
    by (cases cf) (simp_all add: config_changed_def checkConfig_def Let_def split: sum.splits)
  show ?thesis
    unfolding e g out_def[symmetric] by (simp add: cycles_def)
qed

text \<open>
  For example, after the command has started two sizes: a configuration file without a
  name is reported, and one that cannot be parsed makes the callback throw; in both cases
  the bundlers are as they were.
\<close>

theorem config_change_only_validates_witness:
  "watching_config (effects (handle two_sizes))
   \<and> printed (effects (deliver (ConfigChange (Parsed (JObj [(''format'', JStr ''html'')]))) 7
        (effects (handle two_sizes))))
       = printed (effects (handle two_sizes))
           @ [(Log, ''Config changed, validating''), (Error, ''Visual's name is not defined'')]
   \<and> goes_on (deliver (ConfigChange (Parsed (JObj [(''format'', JStr ''html'')]))) 7
        (effects (handle two_sizes)))
   \<and> bundlers (effects (deliver (ConfigChange (Parsed (JObj [(''format'', JStr ''html'')]))) 7
        (effects (handle two_sizes)))) = bundlers (effects (handle two_sizes))
   \<and> \<not> goes_on (deliver (ConfigChange Malformed) 7 (effects (handle two_sizes)))
   \<and> bundlers (effects (deliver (ConfigChange Malformed) 7 (effects (handle two_sizes))))
       = bundlers (effects (handle two_sizes))"
proof -
  define r where "r = effects (handle two_sizes)"
  have w: "watching_config r"
    using handle_watchers(6)[OF two_sizes_goes_on] by (simp add: r_def)
  have c: "checkConfig (Parsed (JObj [(''format'', JStr ''html'')]))
      = Inr (False, [(Error, ''Visual's name is not defined'')])"
    by (simp add: checkConfig_def formats_def)
  note a = config_change_only_validates[OF w, of "Parsed (JObj [(''format'', JStr ''html'')])" 7]
  note b = config_change_only_validates[OF w, of Malformed 7]
  from a have "printed (effects (deliver (ConfigChange (Parsed (JObj [(''format'', JStr ''html'')]))) 7 r))
       = printed r @ [(Log, ''Config changed, validating''), (Error, ''Visual's name is not defined'')]"
    by (simp add: c)
  moreover from a have "goes_on (deliver (ConfigChange (Parsed (JObj [(''format'', JStr ''html'')]))) 7 r)"
    by simp
  moreover from a have "bundlers (effects (deliver (ConfigChange (Parsed (JObj [(''format'', JStr ''html'')]))) 7 r))
       = bundlers r"
    by (elim conjE)
  moreover from b have "\<not> goes_on (deliver (ConfigChange Malformed) 7 r)" by simp
  moreover from b have "bundlers (effects (deliver (ConfigChange Malformed) 7 r)) = bundlers r"
    by (elim conjE)
  ultimately show ?thesis using w unfolding r_def by (intro conjI)
qed

end
